theory Spec2Isabelle
  imports Main "HOL-Library.Word"
begin

section \<open>The marked list of concurrent-linked-list.cpp, run by one thread at a time\<close>

text \<open>
  The development embeds \<^verbatim>\<open>MarkedList\<close> (concurrent-linked-list.hpp and .cpp; the
  single-file variant optimistic-locking.cpp holds the same member functions) as
  functions on an explicit program state. Calls are executed one after the other: a
  call runs from its first line to its return before the next one starts, so every
  mutex is free when it is asked for and the \<^verbatim>\<open>std::mutex\<close> members carry no state.
  The one exception is \<open>insert_traverse_preempted\<close>, which lets calls of other workers
  run between the lines of the unlocked traversal of \<open>insert\<close>.

  \<^item> A \<^verbatim>\<open>Node*\<close> is an \<open>addr option\<close>: \<open>None\<close> is \<^verbatim>\<open>nullptr\<close>. The C++ heap is
    the map \<open>heap\<close> from addresses to nodes; \<^verbatim>\<open>new\<close> takes the address \<open>brk\<close> and
    advances it, so an address names one node for ever; \<^verbatim>\<open>delete\<close> removes the
    address from the map.
  \<^item> Keys are C++ \<^verbatim>\<open>int\<close>s that the code only compares, never adds: they are
    modelled as \<open>int\<close>, which contains every value an \<^verbatim>\<open>int\<close> can take.
  \<^item> \<^verbatim>\<open>std::atomic<int> length\<close> and \<^verbatim>\<open>operationCounter\<close> are 32-bit words:
    \<open>+\<close> and \<open>-\<close> wrap around, \<open>sint\<close> reads the signed value and \<open>\<le>s\<close> is the signed
    comparison.
  \<^item> The static table \<^verbatim>\<open>accessedPointers[MAX_THREADS][ACCESSED_PTRS_PER_THREAD]\<close> is a
    function of the two indices; its cells at rows \<open>0 .. MAX_THREADS - 1\<close> and slots
    \<open>0 .. ACCESSED_PTRS_PER_THREAD - 1\<close> are the array. The functions of this part are the
    source for worker ids in that range. The source indexes the array without any bounds
    check; an index outside the array is the subject of the part on the table as an
    array, whose functions end with a fault at such an access and are the functions of
    this part for worker ids in the range.
  \<^item> Every function that follows pointers returns an option: \<open>None\<close> stands for a run
    with no defined result, because a loop never exits or because a pointer that is
    not in the heap is dereferenced or deleted.
\<close>

subsection \<open>Data\<close>

type_synonym addr = nat

text \<open>\<^verbatim>\<open>struct Node { int value; Node* next; std::mutex m; bool removed; }\<close>; the
  constructor's parameter names \<open>val\<close> and \<open>nxt\<close> name the first two fields.\<close>

record Node =
  val :: int
  nxt :: "addr option"
  removed :: bool

text \<open>The members of \<^verbatim>\<open>class MarkedList\<close> (\<open>length'\<close> is the member \<^verbatim>\<open>length\<close>), the
  static hazard table, and the C++ heap with its allocation mark.\<close>

record MarkedList =
  head :: addr
  retireList :: "addr list"
  length' :: "32 word"
  operationCounter :: "32 word"
  accessedPointers :: "int \<Rightarrow> int \<Rightarrow> addr option"
  heap :: "addr \<Rightarrow> Node option"
  brk :: addr

definition MAX_THREADS :: int where
  "MAX_THREADS = 8"

definition ACCESSED_PTRS_PER_THREAD :: int where
  "ACCESSED_PTRS_PER_THREAD = 2"

text \<open>What one traversal does to memory, in program order: a store into the hazard
  table (thread, slot, pointer stored), a read of a node's \<^verbatim>\<open>value\<close>, a read of a
  node's \<^verbatim>\<open>next\<close>.\<close>

datatype event = Publish int int "addr option" | ReadValue addr | ReadNext addr

subsection \<open>Construction and the hazard table\<close>

text \<open>\<^verbatim>\<open>MarkedList::MarkedList()\<close>: the sentinel with the dummy value \<open>-1\<close>, both counters
  0, every slot of the table null.\<close>

definition sentinel_value :: int where
  "sentinel_value = - 1"

definition MarkedList_new :: MarkedList where
  "MarkedList_new =
     \<lparr>head = 0, retireList = [], length' = 0, operationCounter = 0,
      accessedPointers = (\<lambda>i j. None),
      heap = (\<lambda>a. None)(0 := Some \<lparr>val = sentinel_value, nxt = None, removed = False\<rparr>),
      brk = 1\<rparr>"

definition storeAccessedPointer :: "int \<Rightarrow> addr option \<Rightarrow> int \<Rightarrow> MarkedList \<Rightarrow> MarkedList" where
  "storeAccessedPointer threadID node index s =
     s\<lparr>accessedPointers :=
         (accessedPointers s)(threadID := (accessedPointers s threadID)(index := node))\<rparr>"

definition resetAccessedPointer :: "int \<Rightarrow> MarkedList \<Rightarrow> MarkedList" where
  "resetAccessedPointer threadID s =
     fold (\<lambda>i. storeAccessedPointer threadID None i) [0 .. ACCESSED_PTRS_PER_THREAD - 1] s"

definition isNodeAccessed :: "addr \<Rightarrow> MarkedList \<Rightarrow> bool" where
  "isNodeAccessed node s =
     list_ex (\<lambda>i. list_ex (\<lambda>j. accessedPointers s i j = Some node)
                     [0 .. ACCESSED_PTRS_PER_THREAD - 1])
       [0 .. MAX_THREADS - 1]"

subsection \<open>Reclamation\<close>

text \<open>The loop of \<^verbatim>\<open>scanAndReclaim\<close> over the retire list: a node that no slot holds is
  deleted, the others are pushed onto \<^verbatim>\<open>newRetireList\<close>.\<close>

fun scan_loop :: "addr list \<Rightarrow> MarkedList \<Rightarrow> addr list \<Rightarrow> (MarkedList \<times> addr list) option" where
  "scan_loop [] s newRetireList = Some (s, newRetireList)"
| "scan_loop (node # rest) s newRetireList =
     (if \<not> isNodeAccessed node s then
        (case heap s node of
           None \<Rightarrow> None
         | Some n \<Rightarrow> scan_loop rest (s\<lparr>heap := (heap s)(node := None)\<rparr>) newRetireList)
      else scan_loop rest s (newRetireList @ [node]))"

definition scanAndReclaim :: "MarkedList \<Rightarrow> MarkedList option" where
  "scanAndReclaim s =
     (case scan_loop (retireList s) s [] of
        None \<Rightarrow> None
      | Some (s1, newRetireList) \<Rightarrow> Some (s1\<lparr>retireList := newRetireList\<rparr>))"

text \<open>The tail of \<^verbatim>\<open>insert\<close> and of a successful \<^verbatim>\<open>remove\<close>:
  \<^verbatim>\<open>if (operationCounter.fetch_add(1) + 1 >= length) { scanAndReclaim();
  operationCounter.fetch_sub(length); }\<close>. \<open>reclaim_due\<close> is the test, read before the
  increment is stored.\<close>

definition reclaim_due :: "MarkedList \<Rightarrow> bool" where
  "reclaim_due s \<longleftrightarrow> length' s \<le>s operationCounter s + 1"

definition count_operation :: "MarkedList \<Rightarrow> MarkedList option" where
  "count_operation s =
     (let s1 = s\<lparr>operationCounter := operationCounter s + 1\<rparr> in
      if reclaim_due s then
        (case scanAndReclaim s1 of
           None \<Rightarrow> None
         | Some s2 \<Rightarrow> Some (s2\<lparr>operationCounter := operationCounter s2 - length' s2\<rparr>))
      else Some s1)"

subsection \<open>The optimistic operations\<close>

text \<open>\<^verbatim>\<open>validate(pred, curr)\<close>, called with both nodes locked (taking a lock has
  dereferenced them).\<close>

definition validate :: "MarkedList \<Rightarrow> addr \<Rightarrow> addr option \<Rightarrow> bool option" where
  "validate s pred cur =
     (case heap s pred of
        None \<Rightarrow> None
      | Some p \<Rightarrow>
          (case cur of
             None \<Rightarrow> Some (\<not> removed p \<and> nxt p = cur)
           | Some c \<Rightarrow>
               (case heap s c of
                  None \<Rightarrow> None
                | Some n \<Rightarrow> Some (\<not> removed p \<and> \<not> removed n \<and> nxt p = cur))))"

text \<open>The unlocked walk \<^verbatim>\<open>while (curr && curr->value < val) { ... }\<close>, written the same
  way in \<^verbatim>\<open>insert\<close> and in \<^verbatim>\<open>remove\<close>. It returns \<open>pred\<close>, \<open>curr\<close>, the state with
  the hazard slots it wrote, and the events in the order the statements run.\<close>

partial_function (option) traverse_loop ::
  "int \<Rightarrow> int \<Rightarrow> addr \<Rightarrow> addr option \<Rightarrow> MarkedList \<Rightarrow> event list
     \<Rightarrow> (addr \<times> addr option \<times> MarkedList \<times> event list) option" where
  "traverse_loop v threadID pred cur s es =
     (case cur of
        None \<Rightarrow> Some (pred, cur, s, es)
      | Some c \<Rightarrow>
          (case heap s c of
             None \<Rightarrow> None
           | Some n \<Rightarrow>
               if val n < v then
                 traverse_loop v threadID c (nxt n)
                   (storeAccessedPointer threadID (nxt n) 1
                      (storeAccessedPointer threadID (Some c) 0 s))
                   (es @ [ReadValue c, Publish threadID 0 (Some c),
                          ReadNext c, Publish threadID 1 (nxt n), ReadNext c])
               else Some (pred, cur, s, es @ [ReadValue c])))"

declare traverse_loop.simps [code]

text \<open>\<^verbatim>\<open>insert\<close>, lines 69 to 79: \<^verbatim>\<open>pred = head; storeAccessedPointer(threadID,
  pred->next, 0); curr = pred->next;\<close> and the walk.\<close>

definition insert_traverse ::
  "int \<Rightarrow> int \<Rightarrow> MarkedList \<Rightarrow> (addr \<times> addr option \<times> MarkedList \<times> event list) option" where
  "insert_traverse v threadID s =
     (case heap s (head s) of
        None \<Rightarrow> None
      | Some h \<Rightarrow>
          traverse_loop v threadID (head s) (nxt h)
            (storeAccessedPointer threadID (nxt h) 0 s)
            [ReadNext (head s), Publish threadID 0 (nxt h), ReadNext (head s)])"

text \<open>\<^verbatim>\<open>remove\<close>, lines 117 to 127: \<^verbatim>\<open>curr\<close> is read before the slot is written.\<close>

definition remove_traverse ::
  "int \<Rightarrow> int \<Rightarrow> MarkedList \<Rightarrow> (addr \<times> addr option \<times> MarkedList \<times> event list) option" where
  "remove_traverse v threadID s =
     (case heap s (head s) of
        None \<Rightarrow> None
      | Some h \<Rightarrow>
          traverse_loop v threadID (head s) (nxt h)
            (storeAccessedPointer threadID (nxt h) 0 s)
            [ReadNext (head s), ReadNext (head s), Publish threadID 0 (nxt h)])"

text \<open>\<^verbatim>\<open>insert\<close> up to and including \<^verbatim>\<open>length.fetch_add(1)\<close>: walk, lock, validate
  (\<^verbatim>\<open>continue\<close> after clearing the slots when validation fails), link the new node,
  clear the slots.\<close>

partial_function (option) insert_link :: "int \<Rightarrow> int \<Rightarrow> MarkedList \<Rightarrow> MarkedList option" where
  "insert_link v threadID s =
     (case insert_traverse v threadID s of
        None \<Rightarrow> None
      | Some (pred, cur, s1, es) \<Rightarrow>
          (case validate s1 pred cur of
             None \<Rightarrow> None
           | Some ok \<Rightarrow>
               if \<not> ok then insert_link v threadID (resetAccessedPointer threadID s1)
               else
                 (case heap s1 pred of
                    None \<Rightarrow> None
                  | Some p \<Rightarrow>
                      let newNode = brk s1;
                          s2 = s1\<lparr>heap := (heap s1)
                                  (newNode := Some \<lparr>val = v, nxt = cur, removed = False\<rparr>,
                                   pred := Some (p\<lparr>nxt := Some newNode\<rparr>)),
                                brk := Suc newNode\<rparr>;
                          s3 = resetAccessedPointer threadID s2
                      in Some (s3\<lparr>length' := length' s3 + 1\<rparr>))))"

declare insert_link.simps [code]

definition insert' :: "int \<Rightarrow> int \<Rightarrow> MarkedList \<Rightarrow> MarkedList option" where
  "insert' v threadID s =
     (case insert_link v threadID s of
        None \<Rightarrow> None
      | Some s1 \<Rightarrow> count_operation s1)"

text \<open>\<^verbatim>\<open>remove\<close> up to and including \<^verbatim>\<open>length.fetch_sub(1)\<close>; the flag is the value
  the call is going to return.\<close>

partial_function (option) remove_unlink ::
  "int \<Rightarrow> int \<Rightarrow> MarkedList \<Rightarrow> (bool \<times> MarkedList) option" where
  "remove_unlink v threadID s =
     (case remove_traverse v threadID s of
        None \<Rightarrow> None
      | Some (pred, cur, s1, es) \<Rightarrow>
          (case validate s1 pred cur of
             None \<Rightarrow> None
           | Some ok \<Rightarrow>
               if \<not> ok then remove_unlink v threadID (resetAccessedPointer threadID s1)
               else
                 (case cur of
                    None \<Rightarrow> Some (False, resetAccessedPointer threadID s1)
                  | Some c \<Rightarrow>
                      (case heap s1 c of
                         None \<Rightarrow> None
                       | Some n \<Rightarrow>
                           if val n \<noteq> v then Some (False, resetAccessedPointer threadID s1)
                           else
                             let s2 = s1\<lparr>heap := (heap s1)(c := Some (n\<lparr>removed := True\<rparr>))\<rparr>
                             in (case heap s2 pred of
                                   None \<Rightarrow> None
                                 | Some p \<Rightarrow>
                                     let s3 = s2\<lparr>heap := (heap s2)(pred := Some (p\<lparr>nxt := nxt n\<rparr>))\<rparr>;
                                         s4 = s3\<lparr>retireList := retireList s3 @ [c]\<rparr>;
                                         s5 = resetAccessedPointer threadID s4
                                     in Some (True, s5\<lparr>length' := length' s5 - 1\<rparr>))))))"

declare remove_unlink.simps [code]

definition remove' :: "int \<Rightarrow> int \<Rightarrow> MarkedList \<Rightarrow> (bool \<times> MarkedList) option" where
  "remove' v threadID s =
     (case remove_unlink v threadID s of
        None \<Rightarrow> None
      | Some (found, s1) \<Rightarrow>
          if found then
            (case count_operation s1 of None \<Rightarrow> None | Some s2 \<Rightarrow> Some (True, s2))
          else Some (False, s1))"

text \<open>\<^verbatim>\<open>contains\<close>: its \<^verbatim>\<open>while (true)\<close> returns in the first round. The walk
  publishes \<^verbatim>\<open>head->next\<close>, then after every step the node it has moved to.\<close>

partial_function (option) contains_loop ::
  "int \<Rightarrow> int \<Rightarrow> addr option \<Rightarrow> MarkedList \<Rightarrow> event list
     \<Rightarrow> (addr option \<times> MarkedList \<times> event list) option" where
  "contains_loop v threadID cur s es =
     (case cur of
        None \<Rightarrow> Some (cur, s, es)
      | Some c \<Rightarrow>
          (case heap s c of
             None \<Rightarrow> None
           | Some n \<Rightarrow>
               if val n < v then
                 contains_loop v threadID (nxt n)
                   (storeAccessedPointer threadID (nxt n) 0 s)
                   (es @ [ReadValue c, ReadNext c, Publish threadID 0 (nxt n)])
               else Some (cur, s, es @ [ReadValue c])))"

declare contains_loop.simps [code]

definition contains_traverse ::
  "int \<Rightarrow> int \<Rightarrow> MarkedList \<Rightarrow> (addr option \<times> MarkedList \<times> event list) option" where
  "contains_traverse v threadID s =
     (case heap s (head s) of
        None \<Rightarrow> None
      | Some h \<Rightarrow>
          contains_loop v threadID (nxt h)
            (storeAccessedPointer threadID (nxt h) 0 s)
            [ReadNext (head s), Publish threadID 0 (nxt h)])"

definition contains :: "int \<Rightarrow> int \<Rightarrow> MarkedList \<Rightarrow> (bool \<times> MarkedList) option" where
  "contains v threadID s =
     (case contains_traverse v threadID s of
        None \<Rightarrow> None
      | Some (cur, s1, es) \<Rightarrow>
          (case cur of
             None \<Rightarrow> Some (False, resetAccessedPointer threadID s1)
           | Some c \<Rightarrow>
               (case heap s1 c of
                  None \<Rightarrow> None
                | Some n \<Rightarrow>
                    Some (\<not> removed n \<and> val n = v, resetAccessedPointer threadID s1))))"

subsection \<open>Accessors and diagnostics\<close>

definition get_length :: "MarkedList \<Rightarrow> 32 word" where
  "get_length s = length' s"

text \<open>\<^verbatim>\<open>printList\<close>: the values of the nodes after the sentinel whose \<^verbatim>\<open>removed\<close> flag
  is false, in traversal order.\<close>

partial_function (option) printList_loop ::
  "(addr \<Rightarrow> Node option) \<Rightarrow> addr option \<Rightarrow> int list \<Rightarrow> int list option" where
  "printList_loop h cur out =
     (case cur of
        None \<Rightarrow> Some out
      | Some c \<Rightarrow>
          (case h c of
             None \<Rightarrow> None
           | Some n \<Rightarrow> printList_loop h (nxt n) (if \<not> removed n then out @ [val n] else out)))"

declare printList_loop.simps [code]

definition printList :: "MarkedList \<Rightarrow> int list option" where
  "printList s =
     (case heap s (head s) of
        None \<Rightarrow> None
      | Some h \<Rightarrow> printList_loop (heap s) (nxt h) [])"

text \<open>\<^verbatim>\<open>checkList\<close>: \<open>prev\<close> starts at the sentinel, so the first comparison is with
  the sentinel's value.\<close>

partial_function (option) checkList_loop ::
  "(addr \<Rightarrow> Node option) \<Rightarrow> addr \<Rightarrow> addr option \<Rightarrow> bool option" where
  "checkList_loop h prev cur =
     (case cur of
        None \<Rightarrow> Some True
      | Some c \<Rightarrow>
          (case h c of
             None \<Rightarrow> None
           | Some n \<Rightarrow>
               (case h prev of
                  None \<Rightarrow> None
                | Some p \<Rightarrow>
                    if val n < val p then Some False else checkList_loop h c (nxt n))))"

declare checkList_loop.simps [code]

definition checkList :: "MarkedList \<Rightarrow> bool option" where
  "checkList s =
     (case heap s (head s) of
        None \<Rightarrow> None
      | Some h \<Rightarrow> checkList_loop (heap s) (head s) (nxt h))"

subsection \<open>Sequences of calls\<close>

datatype call = Insert int int | Remove int int | Contains int int

text \<open>One call and its return value (\<^verbatim>\<open>insert\<close> returns nothing: \<open>True\<close> records that
  it has returned).\<close>

fun exec :: "call \<Rightarrow> MarkedList \<Rightarrow> (bool \<times> MarkedList) option" where
  "exec (Insert v t) s = (case insert' v t s of None \<Rightarrow> None | Some s1 \<Rightarrow> Some (True, s1))"
| "exec (Remove v t) s = remove' v t s"
| "exec (Contains v t) s = contains v t s"

fun run :: "call list \<Rightarrow> MarkedList \<Rightarrow> (bool list \<times> MarkedList) option" where
  "run [] s = Some ([], s)"
| "run (c # cs) s =
     (case exec c s of
        None \<Rightarrow> None
      | Some (r, s1) \<Rightarrow>
          (case run cs s1 of
             None \<Rightarrow> None
           | Some (rs, s2) \<Rightarrow> Some (r # rs, s2)))"

primrec chain :: "(addr \<Rightarrow> Node option) \<Rightarrow> addr option \<Rightarrow> addr list \<Rightarrow> bool" where
  "chain h p [] \<longleftrightarrow> p = None"
| "chain h p (a # as) \<longleftrightarrow>
     p = Some a \<and> (case h a of None \<Rightarrow> False | Some n \<Rightarrow> chain h (nxt n) as)"

definition first_of :: "addr list \<Rightarrow> addr option" where
  "first_of as = (case as of [] \<Rightarrow> None | a # _ \<Rightarrow> Some a)"

definition key :: "(addr \<Rightarrow> Node option) \<Rightarrow> addr \<Rightarrow> int" where
  "key h a = val (the (h a))"

definition marked :: "(addr \<Rightarrow> Node option) \<Rightarrow> addr \<Rightarrow> bool" where
  "marked h a = removed (the (h a))"

definition linked :: "MarkedList \<Rightarrow> addr list \<Rightarrow> bool" where
  "linked s as \<longleftrightarrow> chain (heap s) (Some (head s)) (head s # as)"

definition list_inv :: "MarkedList \<Rightarrow> addr list \<Rightarrow> bool" where
  "list_inv s as \<longleftrightarrow>
     linked s as \<and>
     (\<forall>a \<in> set (head s # as). \<not> marked (heap s) a) \<and>
     sorted (map (key (heap s)) as) \<and>
     distinct (retireList s) \<and>
     set (retireList s) \<subseteq> dom (heap s) \<and>
     set (retireList s) \<inter> set (head s # as) = {} \<and>
     (\<forall>a \<in> dom (heap s). a < brk s)"

definition retire_inv :: "MarkedList \<Rightarrow> addr list \<Rightarrow> bool" where
  "retire_inv s as \<longleftrightarrow>
     (\<forall>a \<in> set (retireList s). marked (heap s) a) \<and>
     (\<forall>a \<in> set (head s # as). a \<notin> set (retireList s)) \<and>
     (\<forall>a \<in> dom (heap s). a \<notin> set (head s # as) \<longrightarrow> a \<in> set (retireList s))"


text \<open>Scenario S1 of the specification: the keys 5, 2, 8, 2, 5, 1 inserted in that order
  by worker 0; scenario S2 continues it with \<open>remove(5, 0)\<close>.\<close>

definition S1 :: "call list" where
  "S1 = [Insert 5 0, Insert 2 0, Insert 8 0, Insert 2 0, Insert 5 0, Insert 1 0]"

text \<open>What a test sees after a sequence of calls on a freshly created list: the value
  the last call returned, the traversal \<open>printList\<close> prints and \<open>get_length\<close> as a signed
  number.\<close>

definition observe :: "call list \<Rightarrow> (bool \<times> int list option \<times> int) option" where
  "observe cs =
     (case run cs MarkedList_new of
        None \<Rightarrow> None
      | Some (rs, s) \<Rightarrow> Some (last rs, printList s, sint (get_length s)))"

text \<open>Scenario S3: the list holding the key 7, at the moment a \<open>remove(7, 0)\<close> has set
  \<open>removed\<close> on the node at address 1 and has not yet written \<open>pred->next\<close>.\<close>

definition S3_state :: MarkedList where
  "S3_state =
     MarkedList_new
       \<lparr>heap := (\<lambda>a. None)
          (0 := Some \<lparr>val = sentinel_value, nxt = Some 1, removed = False\<rparr>,
           1 := Some \<lparr>val = 7, nxt = None, removed = True\<rparr>),
        brk := 2, length' := 1\<rparr>"

text \<open>The numbers I and D of a run: the \<open>insert\<close> calls (each one that is listed has
  returned), and the \<open>remove\<close> calls whose recorded return value is true.\<close>

fun inserts_completed :: "call list \<Rightarrow> nat" where
  "inserts_completed [] = 0"
| "inserts_completed (Insert v t # cs) = Suc (inserts_completed cs)"
| "inserts_completed (c # cs) = inserts_completed cs"

fun removes_succeeded :: "call list \<Rightarrow> bool list \<Rightarrow> nat" where
  "removes_succeeded (Remove v t # cs) (True # rs) = Suc (removes_succeeded cs rs)"
| "removes_succeeded (c # cs) (r # rs) = removes_succeeded cs rs"
| "removes_succeeded cs rs = 0"

text \<open>A key is legal when it is above the sentinel's: the sentinel carries a value lower
  than any legal key. Only \<open>insert\<close> brings keys into the list.\<close>

fun legal_call :: "call \<Rightarrow> bool" where
  "legal_call (Insert v t) \<longleftrightarrow> sentinel_value < v"
| "legal_call c \<longleftrightarrow> True"

text \<open>Publish before dereference, for the events of one traversal by worker \<open>t\<close> on the
  list whose sentinel is \<open>sen\<close>: every read of a field of a node other than the sentinel
  comes after a store of that node's address into one of the slots \<open>S\<close> of row \<open>t\<close>.\<close>

definition publishes_first :: "int \<Rightarrow> int set \<Rightarrow> addr \<Rightarrow> event list \<Rightarrow> bool" where
  "publishes_first t S sen es \<longleftrightarrow>
     (\<forall>pre e post a. es = pre @ e # post \<and> (e = ReadValue a \<or> e = ReadNext a) \<and> a \<noteq> sen
        \<longrightarrow> (\<exists>i \<in> S. Publish t i (Some a) \<in> set pre))"

text \<open>One schedule of several workers. Worker \<open>threadID\<close> runs lines 69 and 70 of
  \<open>insert\<close>; the calls \<open>others\<close> of other workers run from their first line to their
  return; worker \<open>threadID\<close> runs line 71; the calls \<open>others'\<close> run; worker \<open>threadID\<close>
  goes on with the walk of lines 74 to 79. The worker holds no lock on these lines, so
  nothing keeps the other calls from running there. With no other call this is
  \<open>insert_traverse\<close>.\<close>

definition insert_traverse_preempted ::
  "call list \<Rightarrow> call list \<Rightarrow> int \<Rightarrow> int \<Rightarrow> MarkedList
     \<Rightarrow> (addr \<times> addr option \<times> MarkedList \<times> event list) option" where
  "insert_traverse_preempted others others' v threadID s =
     (case heap s (head s) of
        None \<Rightarrow> None
      | Some h \<Rightarrow>
          (case run others (storeAccessedPointer threadID (nxt h) 0 s) of
             None \<Rightarrow> None
           | Some (rs, s1) \<Rightarrow>
               (case heap s1 (head s1) of
                  None \<Rightarrow> None
                | Some h1 \<Rightarrow>
                    (case run others' s1 of
                       None \<Rightarrow> None
                     | Some (rs', s2) \<Rightarrow>
                         traverse_loop v threadID (head s1) (nxt h1) s2
                           [ReadNext (head s), Publish threadID 0 (nxt h),
                            ReadNext (head s1)]))))"

text \<open>Whether the call \<open>c\<close>, run in the state \<open>s\<close>, takes the branch that calls
  \<open>scanAndReclaim\<close> (lines 106 to 109 and 166 to 169).\<close>

definition reclaims :: "call \<Rightarrow> MarkedList \<Rightarrow> bool" where
  "reclaims c s =
     (case c of
        Insert v t \<Rightarrow> (case insert_link v t s of None \<Rightarrow> False | Some s1 \<Rightarrow> reclaim_due s1)
      | Remove v t \<Rightarrow>
          (case remove_unlink v t s of None \<Rightarrow> False | Some (found, s1) \<Rightarrow> found \<and> reclaim_due s1)
      | Contains v t \<Rightarrow> False)"

text \<open>Whether a call that returned \<open>r\<close> went through the counting of lines 105 to 109
  and 165 to 169: every \<open>insert\<close> does, a \<open>remove\<close> does when it returns true.\<close>

fun counted :: "call \<Rightarrow> bool \<Rightarrow> bool" where
  "counted (Insert v t) r = True"
| "counted (Remove v t) r = r"
| "counted (Contains v t) r = False"

text \<open>The calls \<open>cs\<close> run from \<open>s\<close>: the number of counted calls since the last call that
  ran a reclaim pass, given that there were \<open>k\<close> of them before the first call.\<close>

fun since_pass :: "call list \<Rightarrow> MarkedList \<Rightarrow> nat \<Rightarrow> nat option" where
  "since_pass [] s k = Some k"
| "since_pass (c # cs) s k =
     (case exec c s of
        None \<Rightarrow> None
      | Some (r, s1) \<Rightarrow>
          since_pass cs s1 (if reclaims c s then 0 else if counted c r then Suc k else k))"

text \<open>\<open>n\<close> rounds of \<open>insert(5, 0); remove(5, 0)\<close>.\<close>

definition rounds :: "nat \<Rightarrow> call list" where
  "rounds n = concat (replicate n [Insert 5 0, Remove 5 0])"

text \<open>The state after \<open>n\<close> such rounds on a freshly created list: the list is empty again,
  \<open>n\<close> nodes have been allocated and freed, and \<open>operationCounter\<close> has gone up by one in
  each round.\<close>

definition after_rounds :: "nat \<Rightarrow> MarkedList" where
  "after_rounds n = MarkedList_new\<lparr>operationCounter := of_nat n, brk := Suc n\<rparr>"

text \<open>The state a sequence of calls leaves a freshly created list in.\<close>

definition after :: "call list \<Rightarrow> MarkedList option" where
  "after cs = map_option snd (run cs MarkedList_new)"

subsection \<open>The hazard table as the array it is\<close>

text \<open>
  The functions above keep the table as a function of any two indices; it has the cells
  of \<^verbatim>\<open>accessedPointers[MAX_THREADS][ACCESSED_PTRS_PER_THREAD]\<close> and, beside them, cells that
  the array does not have. The functions of this part run the same statements on the
  array: an access at an index outside it has no defined behaviour in C++, and the run
  ends there with the fault \<open>OutOfBounds threadID index\<close>. The source has no other way to
  stop a call: no test of \<^verbatim>\<open>threadID\<close>, no assert, no throw, no abort. A result is
  \<open>Some (Inr x)\<close> for a return, \<open>Some (Inl f)\<close> for a fault, \<open>None\<close> as before.
\<close>

datatype fault = OutOfBounds int int

definition in_table :: "int \<Rightarrow> int \<Rightarrow> bool" where
  "in_table threadID index \<longleftrightarrow>
     0 \<le> threadID \<and> threadID < MAX_THREADS \<and> 0 \<le> index \<and> index < ACCESSED_PTRS_PER_THREAD"

definition storeAccessedPointer_array ::
  "int \<Rightarrow> addr option \<Rightarrow> int \<Rightarrow> MarkedList \<Rightarrow> fault + MarkedList" where
  "storeAccessedPointer_array threadID node index s =
     (if in_table threadID index then Inr (storeAccessedPointer threadID node index s)
      else Inl (OutOfBounds threadID index))"

definition resetAccessedPointer_array :: "int \<Rightarrow> MarkedList \<Rightarrow> fault + MarkedList" where
  "resetAccessedPointer_array threadID s =
     fold (\<lambda>i r. case r of
                    Inl f \<Rightarrow> Inl f
                  | Inr s1 \<Rightarrow> storeAccessedPointer_array threadID None i s1)
       [0 .. ACCESSED_PTRS_PER_THREAD - 1] (Inr s)"

partial_function (option) traverse_loop_array ::
  "int \<Rightarrow> int \<Rightarrow> addr \<Rightarrow> addr option \<Rightarrow> MarkedList
     \<Rightarrow> (fault + addr \<times> addr option \<times> MarkedList) option" where
  "traverse_loop_array v threadID pred cur s =
     (case cur of
        None \<Rightarrow> Some (Inr (pred, cur, s))
      | Some c \<Rightarrow>
          (case heap s c of
             None \<Rightarrow> None
           | Some n \<Rightarrow>
               if val n < v then
                 (case storeAccessedPointer_array threadID (Some c) 0 s of
                    Inl f \<Rightarrow> Some (Inl f)
                  | Inr s1 \<Rightarrow>
                      (case storeAccessedPointer_array threadID (nxt n) 1 s1 of
                         Inl f \<Rightarrow> Some (Inl f)
                       | Inr s2 \<Rightarrow> traverse_loop_array v threadID c (nxt n) s2))
               else Some (Inr (pred, cur, s))))"

declare traverse_loop_array.simps [code]

text \<open>Lines 69 to 79 of \<^verbatim>\<open>insert\<close> and 117 to 129 of \<^verbatim>\<open>remove\<close>: the first access to the
  table is the store of \<^verbatim>\<open>pred->next\<close> at \<^verbatim>\<open>[threadID][0]\<close>.\<close>

definition insert_traverse_array ::
  "int \<Rightarrow> int \<Rightarrow> MarkedList \<Rightarrow> (fault + addr \<times> addr option \<times> MarkedList) option" where
  "insert_traverse_array v threadID s =
     (case heap s (head s) of
        None \<Rightarrow> None
      | Some h \<Rightarrow>
          (case storeAccessedPointer_array threadID (nxt h) 0 s of
             Inl f \<Rightarrow> Some (Inl f)
           | Inr s1 \<Rightarrow> traverse_loop_array v threadID (head s) (nxt h) s1))"

definition remove_traverse_array ::
  "int \<Rightarrow> int \<Rightarrow> MarkedList \<Rightarrow> (fault + addr \<times> addr option \<times> MarkedList) option" where
  "remove_traverse_array v threadID s =
     (case heap s (head s) of
        None \<Rightarrow> None
      | Some h \<Rightarrow>
          (case storeAccessedPointer_array threadID (nxt h) 0 s of
             Inl f \<Rightarrow> Some (Inl f)
           | Inr s1 \<Rightarrow> traverse_loop_array v threadID (head s) (nxt h) s1))"

partial_function (option) insert_link_array ::
  "int \<Rightarrow> int \<Rightarrow> MarkedList \<Rightarrow> (fault + MarkedList) option" where
  "insert_link_array v threadID s =
     (case insert_traverse_array v threadID s of
        None \<Rightarrow> None
      | Some (Inl f) \<Rightarrow> Some (Inl f)
      | Some (Inr (pred, cur, s1)) \<Rightarrow>
          (case validate s1 pred cur of
             None \<Rightarrow> None
           | Some ok \<Rightarrow>
               if \<not> ok then
                 (case resetAccessedPointer_array threadID s1 of
                    Inl f \<Rightarrow> Some (Inl f)
                  | Inr s2 \<Rightarrow> insert_link_array v threadID s2)
               else
                 (case heap s1 pred of
                    None \<Rightarrow> None
                  | Some p \<Rightarrow>
                      let newNode = brk s1;
                          s2 = s1\<lparr>heap := (heap s1)
                                  (newNode := Some \<lparr>val = v, nxt = cur, removed = False\<rparr>,
                                   pred := Some (p\<lparr>nxt := Some newNode\<rparr>)),
                                brk := Suc newNode\<rparr>
                      in (case resetAccessedPointer_array threadID s2 of
                            Inl f \<Rightarrow> Some (Inl f)
                          | Inr s3 \<Rightarrow> Some (Inr (s3\<lparr>length' := length' s3 + 1\<rparr>))))))"

declare insert_link_array.simps [code]

definition insert_array :: "int \<Rightarrow> int \<Rightarrow> MarkedList \<Rightarrow> (fault + MarkedList) option" where
  "insert_array v threadID s =
     (case insert_link_array v threadID s of
        None \<Rightarrow> None
      | Some (Inl f) \<Rightarrow> Some (Inl f)
      | Some (Inr s1) \<Rightarrow> map_option Inr (count_operation s1))"

partial_function (option) remove_unlink_array ::
  "int \<Rightarrow> int \<Rightarrow> MarkedList \<Rightarrow> (fault + bool \<times> MarkedList) option" where
  "remove_unlink_array v threadID s =
     (case remove_traverse_array v threadID s of
        None \<Rightarrow> None
      | Some (Inl f) \<Rightarrow> Some (Inl f)
      | Some (Inr (pred, cur, s1)) \<Rightarrow>
          (case validate s1 pred cur of
             None \<Rightarrow> None
           | Some ok \<Rightarrow>
               if \<not> ok then
                 (case resetAccessedPointer_array threadID s1 of
                    Inl f \<Rightarrow> Some (Inl f)
                  | Inr s2 \<Rightarrow> remove_unlink_array v threadID s2)
               else
                 (case cur of
                    None \<Rightarrow>
                      Some (map_sum id (Pair False) (resetAccessedPointer_array threadID s1))
                  | Some c \<Rightarrow>
                      (case heap s1 c of
                         None \<Rightarrow> None
                       | Some n \<Rightarrow>
                           if val n \<noteq> v then
                             Some (map_sum id (Pair False) (resetAccessedPointer_array threadID s1))
                           else
                             let s2 = s1\<lparr>heap := (heap s1)(c := Some (n\<lparr>removed := True\<rparr>))\<rparr>
                             in (case heap s2 pred of
                                   None \<Rightarrow> None
                                 | Some p \<Rightarrow>
                                     let s3 = s2\<lparr>heap := (heap s2)(pred := Some (p\<lparr>nxt := nxt n\<rparr>))\<rparr>;
                                         s4 = s3\<lparr>retireList := retireList s3 @ [c]\<rparr>
                                     in (case resetAccessedPointer_array threadID s4 of
                                           Inl f \<Rightarrow> Some (Inl f)
                                         | Inr s5 \<Rightarrow>
                                             Some (Inr (True, s5\<lparr>length' := length' s5 - 1\<rparr>))))))))"

declare remove_unlink_array.simps [code]

definition remove_array :: "int \<Rightarrow> int \<Rightarrow> MarkedList \<Rightarrow> (fault + bool \<times> MarkedList) option" where
  "remove_array v threadID s =
     (case remove_unlink_array v threadID s of
        None \<Rightarrow> None
      | Some (Inl f) \<Rightarrow> Some (Inl f)
      | Some (Inr (found, s1)) \<Rightarrow>
          if found then map_option (\<lambda>s2. Inr (True, s2)) (count_operation s1)
          else Some (Inr (False, s1)))"

text \<open>\<^verbatim>\<open>contains\<close>: the first access to the table is the store of \<^verbatim>\<open>head->next\<close> at
  \<^verbatim>\<open>[threadID][0]\<close> (line 178).\<close>

partial_function (option) contains_loop_array ::
  "int \<Rightarrow> int \<Rightarrow> addr option \<Rightarrow> MarkedList \<Rightarrow> (fault + addr option \<times> MarkedList) option" where
  "contains_loop_array v threadID cur s =
     (case cur of
        None \<Rightarrow> Some (Inr (cur, s))
      | Some c \<Rightarrow>
          (case heap s c of
             None \<Rightarrow> None
           | Some n \<Rightarrow>
               if val n < v then
                 (case storeAccessedPointer_array threadID (nxt n) 0 s of
                    Inl f \<Rightarrow> Some (Inl f)
                  | Inr s1 \<Rightarrow> contains_loop_array v threadID (nxt n) s1)
               else Some (Inr (cur, s))))"

declare contains_loop_array.simps [code]

definition contains_traverse_array ::
  "int \<Rightarrow> int \<Rightarrow> MarkedList \<Rightarrow> (fault + addr option \<times> MarkedList) option" where
  "contains_traverse_array v threadID s =
     (case heap s (head s) of
        None \<Rightarrow> None
      | Some h \<Rightarrow>
          (case storeAccessedPointer_array threadID (nxt h) 0 s of
             Inl f \<Rightarrow> Some (Inl f)
           | Inr s1 \<Rightarrow> contains_loop_array v threadID (nxt h) s1))"

definition contains_array :: "int \<Rightarrow> int \<Rightarrow> MarkedList \<Rightarrow> (fault + bool \<times> MarkedList) option" where
  "contains_array v threadID s =
     (case contains_traverse_array v threadID s of
        None \<Rightarrow> None
      | Some (Inl f) \<Rightarrow> Some (Inl f)
      | Some (Inr (cur, s1)) \<Rightarrow>
          (case cur of
             None \<Rightarrow> Some (map_sum id (Pair False) (resetAccessedPointer_array threadID s1))
           | Some c \<Rightarrow>
               (case heap s1 c of
                  None \<Rightarrow> None
                | Some n \<Rightarrow>
                    Some (map_sum id (Pair (\<not> removed n \<and> val n = v))
                            (resetAccessedPointer_array threadID s1)))))"

subsection \<open>Invariants of runs\<close>

text \<open>What holds between the calls of a run of at most \<open>n\<close> calls, one after the other,
  on a fresh list: the list invariant, \<open>length\<close> counts the linked nodes, both counters are
  within \<open>0 .. n\<close>, every hazard slot is null, and the retire list is no longer than
  \<open>operationCounter\<close>, which is below \<open>length\<close> while the retire list is not empty.\<close>

definition counters_inv :: "nat \<Rightarrow> MarkedList \<Rightarrow> addr list \<Rightarrow> bool" where
  "counters_inv n s as \<longleftrightarrow>
     list_inv s as \<and>
     length' s = of_nat (length as) \<and> length as \<le> n \<and>
     0 \<le> sint (operationCounter s) \<and> sint (operationCounter s) \<le> int n \<and>
     accessedPointers s = (\<lambda>i j. None) \<and>
     int (length (retireList s)) \<le> sint (operationCounter s) \<and>
     (retireList s \<noteq> [] \<longrightarrow> sint (operationCounter s) < int (length as))"

text \<open>Scenario S5: two retired nodes, the first still held in slot 0 of worker 3.\<close>

definition S5_state :: MarkedList where
  "S5_state =
     MarkedList_new
       \<lparr>retireList := [1, 2],
        accessedPointers := (\<lambda>i j. None)(3 := (\<lambda>j. None)(0 := Some 1)),
        heap := (\<lambda>a. None)
          (0 := Some \<lparr>val = sentinel_value, nxt = None, removed = False\<rparr>,
           1 := Some \<lparr>val = 7, nxt = None, removed = True\<rparr>,
           2 := Some \<lparr>val = 9, nxt = None, removed = True\<rparr>),
        brk := 3\<rparr>"

definition reclaim_spec :: "MarkedList \<Rightarrow> MarkedList" where
  "reclaim_spec s =
     s\<lparr>heap := (\<lambda>a. if a \<in> set (retireList s) \<and> \<not> isNodeAccessed a s then None else heap s a),
       retireList := filter (\<lambda>a. isNodeAccessed a s) (retireList s)\<rparr>"

lemma store_fields [simp]:
  "heap (storeAccessedPointer t p i s) = heap s"
  "head (storeAccessedPointer t p i s) = head s"
  "retireList (storeAccessedPointer t p i s) = retireList s"
  "length' (storeAccessedPointer t p i s) = length' s"
  "operationCounter (storeAccessedPointer t p i s) = operationCounter s"
  "brk (storeAccessedPointer t p i s) = brk s"
  "accessedPointers (storeAccessedPointer t p i s) =
     (accessedPointers s)(t := (accessedPointers s t)(i := p))"
  by (simp_all add: storeAccessedPointer_def)

lemma slots_upto: "[0 .. ACCESSED_PTRS_PER_THREAD - 1] = [0, 1]"
  by (simp add: ACCESSED_PTRS_PER_THREAD_def upto.simps)

lemma reset_eq:
  "resetAccessedPointer t s =
     s\<lparr>accessedPointers := (accessedPointers s)(t := (accessedPointers s t)(0 := None, 1 := None))\<rparr>"
  by (simp add: resetAccessedPointer_def slots_upto storeAccessedPointer_def)

lemma reset_fields [simp]:
  "heap (resetAccessedPointer t s) = heap s"
  "head (resetAccessedPointer t s) = head s"
  "retireList (resetAccessedPointer t s) = retireList s"
  "length' (resetAccessedPointer t s) = length' s"
  "operationCounter (resetAccessedPointer t s) = operationCounter s"
  "brk (resetAccessedPointer t s) = brk s"
  by (simp_all add: reset_eq)

lemma reset_store [simp]:
  "resetAccessedPointer t (storeAccessedPointer t p 0 s) = resetAccessedPointer t s"
  "resetAccessedPointer t (storeAccessedPointer t p 1 s) = resetAccessedPointer t s"
  by (simp_all add: reset_eq storeAccessedPointer_def)

lemma reset_same_fields:
  assumes "resetAccessedPointer t s1 = resetAccessedPointer t s"
  shows "heap s1 = heap s" and "head s1 = head s" and "retireList s1 = retireList s"
    and "length' s1 = length' s" and "operationCounter s1 = operationCounter s"
    and "brk s1 = brk s"
proof -
  have "heap (resetAccessedPointer t s1) = heap (resetAccessedPointer t s)"
    "head (resetAccessedPointer t s1) = head (resetAccessedPointer t s)"
    "retireList (resetAccessedPointer t s1) = retireList (resetAccessedPointer t s)"
    "length' (resetAccessedPointer t s1) = length' (resetAccessedPointer t s)"
    "operationCounter (resetAccessedPointer t s1) = operationCounter (resetAccessedPointer t s)"
    "brk (resetAccessedPointer t s1) = brk (resetAccessedPointer t s)"
    using assms by simp_all
  then show "heap s1 = heap s" and "head s1 = head s" and "retireList s1 = retireList s"
    and "length' s1 = length' s" and "operationCounter s1 = operationCounter s"
    and "brk s1 = brk s"
    by simp_all
qed

lemma isNodeAccessed_iff:
  "isNodeAccessed a s \<longleftrightarrow>
     (\<exists>i j. 0 \<le> i \<and> i < MAX_THREADS \<and> 0 \<le> j \<and> j < ACCESSED_PTRS_PER_THREAD
        \<and> accessedPointers s i j = Some a)"
  unfolding isNodeAccessed_def list_ex_iff Bex_def by (simp; blast)

subsection \<open>Chains\<close>

lemma chain_suffix: "chain h p (xs @ ys) \<Longrightarrow> chain h (first_of ys) ys"
proof (induction xs arbitrary: p)
  case Nil
  then show ?case by (cases ys) (simp_all add: first_of_def)
next
  case (Cons x xs)
  then show ?case by (auto split: option.splits)
qed

lemma chain_unique: "chain h p as \<Longrightarrow> chain h p bs \<Longrightarrow> as = bs"
proof (induction as arbitrary: p bs)
  case Nil
  then show ?case by (cases bs) simp_all
next
  case (Cons a as)
  then show ?case by (cases bs) (auto split: option.splits)
qed

lemma chain_distinct: "chain h p as \<Longrightarrow> distinct as"
proof (induction as arbitrary: p)
  case Nil
  then show ?case by simp
next
  case (Cons a as)
  from Cons.prems obtain n where n: "h a = Some n" "chain h (nxt n) as" "p = Some a"
    by (auto split: option.splits)
  have "a \<notin> set as"
  proof
    assume "a \<in> set as"
    then obtain xs ys where as: "as = xs @ a # ys"
      by (auto dest: split_list)
    have "chain h (Some a) ((a # xs) @ a # ys)"
      using Cons.prems as n(3) by simp
    then have "chain h (first_of (a # ys)) (a # ys)"
      by (rule chain_suffix)
    then have "chain h (Some a) (a # ys)"
      by (simp add: first_of_def)
    moreover have "chain h (Some a) (a # xs @ a # ys)"
      using Cons.prems as n(3) by simp
    ultimately have "a # ys = a # xs @ a # ys"
      by (rule chain_unique)
    then show False by simp
  qed
  moreover have "distinct as" using Cons.IH n(2) .
  ultimately show ?case by simp
qed

lemma chain_allocated: "chain h p as \<Longrightarrow> a \<in> set as \<Longrightarrow> a \<in> dom h"
  by (induction as arbitrary: p) (auto split: option.splits)

lemma chain_upd: "a \<notin> set as \<Longrightarrow> chain (h(a := x)) p as = chain h p as"
  by (induction as arbitrary: p) (auto split: option.splits)

lemma chain_link:
  assumes "chain h (Some a) (a # xs @ ys)"
    and "h new = None"
    and "h (last (a # xs)) = Some p"
  shows "chain (h(new := Some \<lparr>val = v, nxt = nxt p, removed = False\<rparr>,
                  last (a # xs) := Some (p\<lparr>nxt := Some new\<rparr>)))
           (Some a) (a # xs @ new # ys)"
  using assms
proof (induction xs arbitrary: a)
  case Nil
  define h' where "h' = h(new := Some \<lparr>val = v, nxt = nxt p, removed = False\<rparr>,
                          a := Some (p\<lparr>nxt := Some new\<rparr>))"
  have d: "distinct (a # ys)" using chain_distinct [OF Nil.prems(1)] by simp
  have new: "new \<notin> set (a # ys)"
    using chain_allocated [OF Nil.prems(1)] Nil.prems(2) by auto
  have p: "h a = Some p" "chain h (nxt p) ys"
    using Nil.prems by (auto split: option.splits)
  have "chain h' (nxt p) ys"
    using d new p(2) by (simp add: h'_def chain_upd)
  moreover have "h' a = Some (p\<lparr>nxt := Some new\<rparr>)"
    and "h' new = Some \<lparr>val = v, nxt = nxt p, removed = False\<rparr>"
    using new by (simp_all add: h'_def)
  ultimately have "chain h' (Some a) (a # [] @ new # ys)"
    by simp
  then show ?case
    unfolding h'_def by (simp only: last.simps list.simps if_True if_False append_Nil append_Cons refl simp_thms)
next
  case (Cons x xs)
  define h' where "h' = h(new := Some \<lparr>val = v, nxt = nxt p, removed = False\<rparr>,
                          last (x # xs) := Some (p\<lparr>nxt := Some new\<rparr>))"
  have d: "distinct (a # x # xs @ ys)" using chain_distinct [OF Cons.prems(1)] by simp
  have new: "new \<notin> set (a # x # xs @ ys)"
    using chain_allocated [OF Cons.prems(1)] Cons.prems(2) by auto
  from Cons.prems(1) obtain n where n: "h a = Some n" "nxt n = Some x"
      "chain h (Some x) (x # xs @ ys)"
    by (auto split: option.splits)
  have "last (x # xs) \<in> set (x # xs)" by (rule last_in_set) simp
  with d have ne: "last (x # xs) \<noteq> a" by auto
  have lp: "h (last (x # xs)) = Some p" using Cons.prems(3) by simp
  have "chain h' (Some x) (x # xs @ new # ys)"
    unfolding h'_def by (rule Cons.IH [OF n(3) Cons.prems(2) lp])
  moreover have "h' a = Some n"
    using n(1) new ne by (simp add: h'_def)
  ultimately have "chain h' (Some a) (a # (x # xs) @ new # ys)"
    using n(2) by simp
  then show ?case
    unfolding h'_def by (simp only: last.simps list.simps if_True if_False append_Nil append_Cons refl simp_thms)
qed

lemma chain_unlink:
  assumes "chain h (Some a) (a # xs @ c # ys)"
    and "h (last (a # xs)) = Some p"
    and "h c = Some n"
  shows "chain (h(c := Some (n\<lparr>removed := True\<rparr>),
                  last (a # xs) := Some (p\<lparr>nxt := nxt n\<rparr>)))
           (Some a) (a # xs @ ys)"
  using assms
proof (induction xs arbitrary: a)
  case Nil
  define h' where "h' = h(c := Some (n\<lparr>removed := True\<rparr>), a := Some (p\<lparr>nxt := nxt n\<rparr>))"
  have d: "distinct (a # c # ys)" using chain_distinct [OF Nil.prems(1)] by simp
  have p: "h a = Some p" "nxt p = Some c" "chain h (nxt n) ys"
    using Nil.prems by (auto split: option.splits)
  have "chain h' (nxt n) ys"
    using d p(3) by (simp add: h'_def chain_upd)
  moreover have "h' a = Some (p\<lparr>nxt := nxt n\<rparr>)"
    by (simp add: h'_def)
  ultimately have "chain h' (Some a) (a # [] @ ys)"
    by (cases ys) simp_all
  then show ?case
    unfolding h'_def by (simp only: last.simps list.simps if_True if_False append_Nil append_Cons refl simp_thms)
next
  case (Cons x xs)
  define h' where "h' = h(c := Some (n\<lparr>removed := True\<rparr>),
                          last (x # xs) := Some (p\<lparr>nxt := nxt n\<rparr>))"
  have d: "distinct (a # x # xs @ c # ys)" using chain_distinct [OF Cons.prems(1)] by simp
  from Cons.prems(1) obtain m where m: "h a = Some m" "nxt m = Some x"
      "chain h (Some x) (x # xs @ c # ys)"
    by (auto split: option.splits)
  have "last (x # xs) \<in> set (x # xs)" by (rule last_in_set) simp
  with d have ne: "last (x # xs) \<noteq> a" by auto
  have ca: "c \<noteq> a" using d by auto
  have lp: "h (last (x # xs)) = Some p" using Cons.prems(2) by simp
  have "chain h' (Some x) (x # xs @ ys)"
    unfolding h'_def by (rule Cons.IH [OF m(3) lp Cons.prems(3)])
  moreover have "h' a = Some m"
    using m(1) ne ca by (simp add: h'_def)
  ultimately have "chain h' (Some a) (a # (x # xs) @ ys)"
    using m(2) by simp
  then show ?case
    unfolding h'_def by (simp only: last.simps list.simps if_True if_False append_Nil append_Cons refl simp_thms)
qed

lemma chain_last_next:
  "chain h (Some a) (a # xs @ ys) \<Longrightarrow> \<exists>p. h (last (a # xs)) = Some p \<and> nxt p = first_of ys"
proof (induction xs arbitrary: a)
  case Nil
  then show ?case
    by (cases ys) (auto simp: first_of_def split: option.splits)
next
  case (Cons x xs)
  from Cons.prems have "chain h (Some x) (x # xs @ ys)"
    by (auto split: option.splits)
  from Cons.IH [OF this] show ?case by simp
qed

lemma traverse_loop_chain:
  assumes "chain (heap s) cur as"
  shows "\<exists>s1 es1. traverse_loop v t pred cur s es =
           Some (last (pred # takeWhile (\<lambda>a. key (heap s) a < v) as),
                 first_of (dropWhile (\<lambda>a. key (heap s) a < v) as), s1, es1)
         \<and> resetAccessedPointer t s1 = resetAccessedPointer t s"
  using assms
proof (induction as arbitrary: pred cur s es)
  case Nil
  then show ?case
    by (subst traverse_loop.simps) (simp add: first_of_def)
next
  case (Cons a as)
  from Cons.prems obtain n where n: "cur = Some a" "heap s a = Some n" "chain (heap s) (nxt n) as"
    by (auto split: option.splits)
  show ?case
  proof (cases "val n < v")
    case True
    let ?s' = "storeAccessedPointer t (nxt n) 1 (storeAccessedPointer t (Some a) 0 s)"
    let ?es' = "es @ [ReadValue a, Publish t 0 (Some a), ReadNext a, Publish t 1 (nxt n), ReadNext a]"
    have "chain (heap ?s') (nxt n) as" using n(3) by simp
    from Cons.IH [OF this, of a ?es'] obtain s1 es1 where
      r: "traverse_loop v t a (nxt n) ?s' ?es' =
           Some (last (a # takeWhile (\<lambda>a. key (heap s) a < v) as),
                 first_of (dropWhile (\<lambda>a. key (heap s) a < v) as), s1, es1)"
      and f: "resetAccessedPointer t s1 = resetAccessedPointer t s"
      by auto
    have k: "key (heap s) a < v" using True n(2) by (simp add: key_def)
    have "traverse_loop v t pred cur s es = traverse_loop v t a (nxt n) ?s' ?es'"
      by (subst traverse_loop.simps) (simp add: n True)
    with r f k show ?thesis by simp
  next
    case False
    have k: "\<not> key (heap s) a < v" using False n(2) by (simp add: key_def)
    have "traverse_loop v t pred cur s es = Some (pred, cur, s, es @ [ReadValue a])"
      by (subst traverse_loop.simps) (simp add: n False)
    with k n(1) show ?thesis by (simp add: first_of_def)
  qed
qed

lemma insert_traverse_linked:
  assumes "linked s as"
  shows "\<exists>s1 es1. insert_traverse v t s =
           Some (last (head s # takeWhile (\<lambda>a. key (heap s) a < v) as),
                 first_of (dropWhile (\<lambda>a. key (heap s) a < v) as), s1, es1)
         \<and> resetAccessedPointer t s1 = resetAccessedPointer t s"
proof -
  from assms obtain h where h: "heap s (head s) = Some h" "chain (heap s) (nxt h) as"
    by (auto simp: linked_def split: option.splits)
  let ?s0 = "storeAccessedPointer t (nxt h) 0 s"
  have "chain (heap ?s0) (nxt h) as" using h(2) by simp
  from traverse_loop_chain [OF this, of v t "head s"] h(1) show ?thesis
    by (simp add: insert_traverse_def)
qed

lemma remove_traverse_linked:
  assumes "linked s as"
  shows "\<exists>s1 es1. remove_traverse v t s =
           Some (last (head s # takeWhile (\<lambda>a. key (heap s) a < v) as),
                 first_of (dropWhile (\<lambda>a. key (heap s) a < v) as), s1, es1)
         \<and> resetAccessedPointer t s1 = resetAccessedPointer t s"
proof -
  from assms obtain h where h: "heap s (head s) = Some h" "chain (heap s) (nxt h) as"
    by (auto simp: linked_def split: option.splits)
  let ?s0 = "storeAccessedPointer t (nxt h) 0 s"
  have "chain (heap ?s0) (nxt h) as" using h(2) by simp
  from traverse_loop_chain [OF this, of v t "head s"] h(1) show ?thesis
    by (simp add: remove_traverse_def)
qed

lemma validate_ok:
  assumes "linked s (xs @ ys)"
    and "\<forall>a \<in> set (head s # xs @ ys). \<not> marked (heap s) a"
  shows "validate s (last (head s # xs)) (first_of ys) = Some True"
proof -
  have c: "chain (heap s) (Some (head s)) (head s # xs @ ys)"
    using assms(1) by (simp add: linked_def)
  from chain_last_next [OF c] obtain p where
    p: "heap s (last (head s # xs)) = Some p" "nxt p = first_of ys" by auto
  have "last (head s # xs) \<in> set (head s # xs)" by (rule last_in_set) simp
  moreover from assms(2) have "\<forall>a \<in> set (head s # xs). \<not> marked (heap s) a" by simp
  ultimately have "\<not> marked (heap s) (last (head s # xs))" by blast
  with p(1) have np: "\<not> removed p" by (simp add: marked_def)
  show ?thesis
  proof (cases ys)
    case Nil
    with p np show ?thesis by (simp add: validate_def first_of_def)
  next
    case (Cons y ys')
    have "y \<in> dom (heap s)"
      using chain_allocated [OF c, of y] Cons by simp
    then obtain n where n: "heap s y = Some n" by auto
    with assms(2) Cons have "\<not> removed n" by (auto simp: marked_def)
    with p np n Cons show ?thesis by (simp add: validate_def first_of_def)
  qed
qed

lemma isNodeAccessed_frame [simp]:
  "isNodeAccessed a (s\<lparr>heap := h\<rparr>) = isNodeAccessed a s"
  "isNodeAccessed a (s\<lparr>retireList := r\<rparr>) = isNodeAccessed a s"
  "isNodeAccessed a (s\<lparr>operationCounter := c\<rparr>) = isNodeAccessed a s"
  "isNodeAccessed a (s\<lparr>length' := l\<rparr>) = isNodeAccessed a s"
  "isNodeAccessed a (s\<lparr>brk := b\<rparr>) = isNodeAccessed a s"
  by (simp_all add: isNodeAccessed_def)

lemma scan_loop_result:
  assumes "distinct rs" and "set rs \<subseteq> dom (heap s)"
  shows "scan_loop rs s new =
           Some (s\<lparr>heap := (\<lambda>a. if a \<in> set rs \<and> \<not> isNodeAccessed a s then None else heap s a)\<rparr>,
                 new @ filter (\<lambda>a. isNodeAccessed a s) rs)"
  using assms
proof (induction rs arbitrary: s new)
  case Nil
  then show ?case by simp
next
  case (Cons r rs)
  from Cons.prems have d: "distinct rs" and r: "r \<notin> set rs" by simp_all
  show ?case
  proof (cases "isNodeAccessed r s")
    case True
    have sub: "set rs \<subseteq> dom (heap s)" using Cons.prems by simp
    have "s\<lparr>heap := (\<lambda>a. if a \<in> set rs \<and> \<not> isNodeAccessed a s then None else heap s a)\<rparr> =
          s\<lparr>heap := (\<lambda>a. if a \<in> set (r # rs) \<and> \<not> isNodeAccessed a s then None else heap s a)\<rparr>"
      using True by (intro MarkedList.equality) (auto simp: fun_eq_iff)
    with Cons.IH [OF d sub, of "new @ [r]"] True show ?thesis by simp
  next
    case False
    from Cons.prems obtain n where n: "heap s r = Some n" by auto
    let ?s' = "s\<lparr>heap := (heap s)(r := None)\<rparr>"
    have sub: "set rs \<subseteq> dom (heap ?s')" using Cons.prems by auto
    have "?s'\<lparr>heap := (\<lambda>a. if a \<in> set rs \<and> \<not> isNodeAccessed a ?s' then None else heap ?s' a)\<rparr> =
          s\<lparr>heap := (\<lambda>a. if a \<in> set (r # rs) \<and> \<not> isNodeAccessed a s then None else heap s a)\<rparr>"
      using False by (intro MarkedList.equality) (auto simp: fun_eq_iff)
    moreover have "filter (\<lambda>a. isNodeAccessed a ?s') rs = filter (\<lambda>a. isNodeAccessed a s) rs"
      by simp
    ultimately have "scan_loop rs ?s' new =
        Some (s\<lparr>heap := (\<lambda>a. if a \<in> set (r # rs) \<and> \<not> isNodeAccessed a s then None else heap s a)\<rparr>,
              new @ filter (\<lambda>a. isNodeAccessed a s) rs)"
      using Cons.IH [OF d sub, of new] by simp
    then show ?thesis using False n by simp
  qed
qed

lemma scanAndReclaim_result:
  assumes "distinct (retireList s)" and "set (retireList s) \<subseteq> dom (heap s)"
  shows "scanAndReclaim s = Some (reclaim_spec s)"
  using scan_loop_result [OF assms, of "[]"]
  by (simp add: scanAndReclaim_def reclaim_spec_def)

lemma chain_cong: "(\<forall>a \<in> set as. h' a = h a) \<Longrightarrow> chain h' p as = chain h p as"
  by (induction as arbitrary: p) (auto split: option.splits)

lemma list_inv_frame [simp]:
  "list_inv (s\<lparr>operationCounter := c\<rparr>) as = list_inv s as"
  "list_inv (s\<lparr>length' := l\<rparr>) as = list_inv s as"
  "list_inv (s\<lparr>accessedPointers := ap\<rparr>) as = list_inv s as"
  by (simp_all add: list_inv_def linked_def)

lemma retire_inv_frame [simp]:
  "retire_inv (s\<lparr>operationCounter := c\<rparr>) as = retire_inv s as"
  "retire_inv (s\<lparr>length' := l\<rparr>) as = retire_inv s as"
  "retire_inv (s\<lparr>accessedPointers := ap\<rparr>) as = retire_inv s as"
  by (simp_all add: retire_inv_def)

lemma reclaim_spec_fields [simp]:
  "head (reclaim_spec s) = head s"
  "brk (reclaim_spec s) = brk s"
  "length' (reclaim_spec s) = length' s"
  "operationCounter (reclaim_spec s) = operationCounter s"
  "accessedPointers (reclaim_spec s) = accessedPointers s"
  "retireList (reclaim_spec s) = filter (\<lambda>a. isNodeAccessed a s) (retireList s)"
  by (simp_all add: reclaim_spec_def)

lemma reclaim_spec_heap:
  "heap (reclaim_spec s) a =
     (if a \<in> set (retireList s) \<and> \<not> isNodeAccessed a s then None else heap s a)"
  by (simp add: reclaim_spec_def)

lemma reclaim_spec_heap_kept:
  "a \<notin> set (retireList s) \<Longrightarrow> heap (reclaim_spec s) a = heap s a"
  by (simp add: reclaim_spec_heap)

lemma list_inv_reclaim:
  assumes "list_inv s as"
  shows "list_inv (reclaim_spec s) as"
proof -
  let ?s' = "reclaim_spec s"
  from assms have l: "chain (heap s) (Some (head s)) (head s # as)"
    and u: "\<forall>a \<in> set (head s # as). \<not> marked (heap s) a"
    and so: "sorted (map (key (heap s)) as)"
    and d: "distinct (retireList s)"
    and sub: "set (retireList s) \<subseteq> dom (heap s)"
    and dis: "set (retireList s) \<inter> set (head s # as) = {}"
    and al: "\<forall>a \<in> dom (heap s). a < brk s"
    by (simp_all add: list_inv_def linked_def)
  have same: "\<forall>a \<in> set (head s # as). heap ?s' a = heap s a"
    using dis by (auto simp: reclaim_spec_heap)
  have "chain (heap ?s') (Some (head s)) (head s # as) = chain (heap s) (Some (head s)) (head s # as)"
    by (rule chain_cong [OF same])
  with l have "chain (heap ?s') (Some (head s)) (head s # as)"
    by blast
  moreover have "\<forall>a \<in> set (head s # as). \<not> marked (heap ?s') a"
    using same u by (simp add: marked_def)
  moreover have km: "map (key (heap ?s')) as = map (key (heap s)) as"
    using same by (simp add: key_def)
  have "sorted (map (key (heap ?s')) as)"
    unfolding km by (rule so)
  moreover note d dis
  moreover have "set (retireList ?s') \<subseteq> dom (heap ?s')"
    using sub by (auto simp: reclaim_spec_heap)
  moreover have "\<forall>a \<in> dom (heap ?s'). a < brk s"
    using al by (auto simp: reclaim_spec_heap split: if_splits)
  ultimately show ?thesis
    unfolding list_inv_def linked_def by auto
qed

lemma retire_inv_reclaim:
  assumes "list_inv s as" and "retire_inv s as"
  shows "retire_inv (reclaim_spec s) as"
  using assms
  by (auto simp: retire_inv_def list_inv_def reclaim_spec_heap marked_def split: if_splits)

lemma count_operation_result:
  assumes "distinct (retireList s)" and "set (retireList s) \<subseteq> dom (heap s)"
  shows "count_operation s =
           Some (if reclaim_due s
                 then (reclaim_spec s)\<lparr>operationCounter := operationCounter s + 1 - length' s\<rparr>
                 else s\<lparr>operationCounter := operationCounter s + 1\<rparr>)"
proof -
  let ?s1 = "s\<lparr>operationCounter := operationCounter s + 1\<rparr>"
  have "scanAndReclaim ?s1 = Some (reclaim_spec ?s1)"
    using assms by (intro scanAndReclaim_result) simp_all
  moreover have "(reclaim_spec ?s1)\<lparr>operationCounter := operationCounter s + 1 - length' s\<rparr> =
                 (reclaim_spec s)\<lparr>operationCounter := operationCounter s + 1 - length' s\<rparr>"
    by (intro MarkedList.equality) (simp_all add: reclaim_spec_def fun_eq_iff)
  ultimately show ?thesis
    by (simp add: count_operation_def Let_def)
qed

lemma count_operation_inv:
  assumes "list_inv s as"
  shows "\<exists>s'. count_operation s = Some s' \<and> list_inv s' as
           \<and> head s' = head s \<and> brk s' = brk s \<and> length' s' = length' s
           \<and> accessedPointers s' = accessedPointers s
           \<and> (\<forall>a \<in> set (head s # as). heap s' a = heap s a)
           \<and> (retire_inv s as \<longrightarrow> retire_inv s' as)"
proof -
  from assms have d: "distinct (retireList s)" and sub: "set (retireList s) \<subseteq> dom (heap s)"
    and dis: "set (retireList s) \<inter> set (head s # as) = {}"
    by (simp_all add: list_inv_def)
  have same: "\<forall>a \<in> set (head s # as). heap (reclaim_spec s) a = heap s a"
    using dis by (auto simp: reclaim_spec_heap)
  show ?thesis
    unfolding count_operation_result [OF d sub]
    using assms list_inv_reclaim [OF assms] retire_inv_reclaim [OF assms] same
    by (cases "reclaim_due s") simp_all
qed

lemma sorted_insert_key:
  "sorted (map k as) \<Longrightarrow>
   sorted (map k (takeWhile (\<lambda>a. k a < v) as) @ v # map k (dropWhile (\<lambda>a. k a < v) as))"
proof (induction as)
  case Nil
  then show ?case by simp
next
  case (Cons a as)
  show ?case
  proof (cases "k a < v")
    case True
    have "\<forall>x \<in> set (takeWhile (\<lambda>a. k a < v) as) \<union> set (dropWhile (\<lambda>a. k a < v) as). k a \<le> k x"
      using Cons.prems by (auto dest!: set_takeWhileD set_dropWhileD)
    with Cons True show ?thesis by (auto simp: sorted_append)
  next
    case False
    with Cons.prems show ?thesis by auto
  qed
qed

lemma validate_cong: "heap s1 = heap s \<Longrightarrow> validate s1 pred cur = validate s pred cur"
  by (auto simp: validate_def split: option.splits)

lemma list_inv_cong:
  "heap s' = heap s \<Longrightarrow> head s' = head s \<Longrightarrow> retireList s' = retireList s \<Longrightarrow> brk s' = brk s
   \<Longrightarrow> list_inv s' as = list_inv s as"
  by (simp add: list_inv_def linked_def)

lemma retire_inv_cong:
  "heap s' = heap s \<Longrightarrow> head s' = head s \<Longrightarrow> retireList s' = retireList s
   \<Longrightarrow> retire_inv s' as = retire_inv s as"
  by (simp add: retire_inv_def)

lemma fresh_brk: "\<forall>a \<in> dom (heap s). a < brk s \<Longrightarrow> heap s (brk s) = None"
  by (metis domIff less_irrefl)

text \<open>The state \<open>insert_link\<close> returns.\<close>

lemma insert_link_result:
  assumes "list_inv s as"
  shows "\<exists>p. heap s (last (head s # takeWhile (\<lambda>a. key (heap s) a < v) as)) = Some p \<and>
         insert_link v t s =
           Some ((resetAccessedPointer t s)
                   \<lparr>heap := (heap s)
                      (brk s := Some \<lparr>val = v,
                                      nxt = first_of (dropWhile (\<lambda>a. key (heap s) a < v) as),
                                      removed = False\<rparr>,
                       last (head s # takeWhile (\<lambda>a. key (heap s) a < v) as) :=
                         Some (p\<lparr>nxt := Some (brk s)\<rparr>)),
                    brk := Suc (brk s),
                    length' := length' s + 1\<rparr>)"
proof -
  let ?xs = "takeWhile (\<lambda>a. key (heap s) a < v) as"
  let ?ys = "dropWhile (\<lambda>a. key (heap s) a < v) as"
  let ?pred = "last (head s # ?xs)"
  from assms have l: "linked s as" and u: "\<forall>a \<in> set (head s # as). \<not> marked (heap s) a"
    by (simp_all add: list_inv_def)
  from insert_traverse_linked [OF l, of v t] obtain s1 es1 where
    tr: "insert_traverse v t s = Some (?pred, first_of ?ys, s1, es1)"
    and f: "resetAccessedPointer t s1 = resetAccessedPointer t s"
    by auto
  note same = reset_same_fields [OF f]
  have l': "linked s (?xs @ ?ys)" using l by simp
  have u': "\<forall>a \<in> set (head s # ?xs @ ?ys). \<not> marked (heap s) a" using u by simp
  have va: "validate s1 ?pred (first_of ?ys) = Some True"
    using validate_ok [OF l' u'] validate_cong [OF same(1)] by simp
  have "chain (heap s) (Some (head s)) (head s # ?xs @ ?ys)"
    using l by (simp add: linked_def)
  from chain_last_next [OF this] obtain p where p: "heap s ?pred = Some p" by auto
  let ?H = "(heap s)(brk s := Some \<lparr>val = v, nxt = first_of ?ys, removed = False\<rparr>,
                      ?pred := Some (p\<lparr>nxt := Some (brk s)\<rparr>))"
  have "accessedPointers (resetAccessedPointer t (s1\<lparr>heap := ?H, brk := Suc (brk s)\<rparr>)) =
        accessedPointers (resetAccessedPointer t s1)"
    by (simp add: reset_eq)
  then have ap: "accessedPointers (resetAccessedPointer t (s1\<lparr>heap := ?H, brk := Suc (brk s)\<rparr>)) =
        accessedPointers (resetAccessedPointer t s)"
    by (simp only: f)
  have fin: "(resetAccessedPointer t (s1\<lparr>heap := ?H, brk := Suc (brk s)\<rparr>))
               \<lparr>length' := length' s + 1\<rparr> =
             (resetAccessedPointer t s)\<lparr>heap := ?H, brk := Suc (brk s), length' := length' s + 1\<rparr>"
    using ap same by (intro MarkedList.equality) simp_all
  have "insert_link v t s =
          Some ((resetAccessedPointer t (s1\<lparr>heap := ?H, brk := Suc (brk s)\<rparr>))
                  \<lparr>length' := length' s + 1\<rparr>)"
    by (subst insert_link.simps) (simp add: tr va p same Let_def del: last.simps)
  with fin p show ?thesis by (simp del: last.simps)
qed

lemma dropWhile_sorted_ge:
  "sorted (map k as) \<Longrightarrow> \<forall>a \<in> set (dropWhile (\<lambda>a. k a < v) as). (v::int) \<le> k a"
  by (induction as) auto

lemma link_preserves:
  assumes inv: "list_inv s (xs @ ys)"
    and p: "heap s (last (head s # xs)) = Some p"
    and lt: "\<forall>a \<in> set xs. key (heap s) a < v"
    and ge: "\<forall>a \<in> set ys. v \<le> key (heap s) a"
    and h': "heap s' = (heap s)(brk s := Some \<lparr>val = v, nxt = first_of ys, removed = False\<rparr>,
                               last (head s # xs) := Some (p\<lparr>nxt := Some (brk s)\<rparr>))"
    and hd': "head s' = head s" and r': "retireList s' = retireList s"
    and b': "brk s' = Suc (brk s)"
  shows "list_inv s' (xs @ brk s # ys)"
    and "key (heap s') (brk s) = v"
    and "\<forall>a \<in> set (xs @ ys). key (heap s') a = key (heap s) a"
    and "retire_inv s (xs @ ys) \<Longrightarrow> retire_inv s' (xs @ brk s # ys)"
    and "key (heap s') (head s) = key (heap s) (head s)"
proof -
  let ?pred = "last (head s # xs)"
  let ?new = "brk s"
  from inv have c: "chain (heap s) (Some (head s)) (head s # xs @ ys)"
    and u: "\<forall>a \<in> set (head s # xs @ ys). \<not> marked (heap s) a"
    and so: "sorted (map (key (heap s)) (xs @ ys))"
    and d: "distinct (retireList s)"
    and sub: "set (retireList s) \<subseteq> dom (heap s)"
    and dis: "set (retireList s) \<inter> set (head s # xs @ ys) = {}"
    and al: "\<forall>a \<in> dom (heap s). a < brk s"
    by (simp_all add: list_inv_def linked_def)
  have newNone: "heap s ?new = None" by (rule fresh_brk [OF al])
  from chain_last_next [OF c] p have nxtp: "nxt p = first_of ys" by simp
  have pred_in: "?pred \<in> set (head s # xs)" by (rule last_in_set) simp
  have new_chain: "?new \<notin> set (head s # xs @ ys)"
    using chain_allocated [OF c] newNone by auto
  have new_pred: "?new \<noteq> ?pred" using p newNone by auto
  have new_ret: "?new \<notin> set (retireList s)" using sub newNone by auto
  have hnew: "heap s' ?new = Some \<lparr>val = v, nxt = first_of ys, removed = False\<rparr>"
    unfolding h' using new_pred by (simp del: last.simps)
  have hpred: "heap s' ?pred = Some (p\<lparr>nxt := Some ?new\<rparr>)"
    unfolding h' by (simp del: last.simps)
  have hother: "\<And>a. a \<noteq> ?new \<Longrightarrow> a \<noteq> ?pred \<Longrightarrow> heap s' a = heap s a"
    unfolding h' by (simp del: last.simps)
  have hk: "\<And>a. a \<noteq> ?new \<Longrightarrow> key (heap s') a = key (heap s) a"
    using hpred hother p unfolding key_def by (metis Node.select_convs(1) Node.surjective Node.update_convs(2) option.sel)
  have hm: "\<And>a. a \<noteq> ?new \<Longrightarrow> marked (heap s') a = marked (heap s) a"
    using hpred hother p unfolding marked_def by (metis Node.select_convs(3) Node.surjective Node.update_convs(2) option.sel)
  have dom': "dom (heap s') = insert ?new (dom (heap s))"
    unfolding h' using p by (auto simp del: last.simps)
  show "key (heap s') (head s) = key (heap s) (head s)"
    using new_chain by (intro hk) auto
  show k: "key (heap s') (brk s) = v" using hnew by (simp add: key_def)
  show ks: "\<forall>a \<in> set (xs @ ys). key (heap s') a = key (heap s) a"
  proof
    fix a assume "a \<in> set (xs @ ys)"
    with new_chain have "a \<noteq> ?new" by auto
    then show "key (heap s') a = key (heap s) a" by (rule hk)
  qed
  have "chain (heap s') (Some (head s)) (head s # xs @ ?new # ys)"
    unfolding h' using chain_link [OF c newNone p, of v] by (simp only: nxtp)
  then have 1: "linked s' (xs @ ?new # ys)" by (simp add: linked_def hd')
  have 2: "\<forall>a \<in> set (head s' # xs @ ?new # ys). \<not> marked (heap s') a"
  proof
    fix a assume a: "a \<in> set (head s' # xs @ ?new # ys)"
    show "\<not> marked (heap s') a"
    proof (cases "a = ?new")
      case True
      then show ?thesis using hnew by (simp add: marked_def)
    next
      case False
      with a u hd' have "\<not> marked (heap s) a" by auto
      with hm [OF False] show ?thesis by simp
    qed
  qed
  have km: "map (key (heap s')) (xs @ ?new # ys) = map (key (heap s)) xs @ v # map (key (heap s)) ys"
    using k ks by simp
  have "sorted (map (key (heap s)) xs @ v # map (key (heap s)) ys)"
    using so lt ge by (auto simp: sorted_append)
  then have 3: "sorted (map (key (heap s')) (xs @ ?new # ys))" by (simp only: km)
  have 5: "set (retireList s') \<subseteq> dom (heap s')" using sub dom' r' by auto
  have 6: "set (retireList s') \<inter> set (head s' # xs @ ?new # ys) = {}"
    using dis new_ret r' hd' by auto
  have 7: "\<forall>a \<in> dom (heap s'). a < brk s'"
    unfolding dom' b' using al by (auto simp: less_Suc_eq)
  show "list_inv s' (xs @ brk s # ys)"
    unfolding list_inv_def using 1 2 3 d r' 5 6 7 by simp
  show "retire_inv s' (xs @ brk s # ys)" if ri: "retire_inv s (xs @ ys)"
  proof -
    have "\<forall>a \<in> set (retireList s'). marked (heap s') a"
    proof
      fix a assume a: "a \<in> set (retireList s')"
      with new_ret r' have "a \<noteq> ?new" by auto
      from hm [OF this] a ri r' show "marked (heap s') a" by (simp add: retire_inv_def)
    qed
    moreover have "\<forall>a \<in> set (head s' # xs @ ?new # ys). a \<notin> set (retireList s')"
      using 6 by auto
    moreover have "\<forall>a \<in> dom (heap s'). a \<notin> set (head s' # xs @ ?new # ys) \<longrightarrow> a \<in> set (retireList s')"
      using ri dom' r' hd' by (auto simp: retire_inv_def)
    ultimately show ?thesis unfolding retire_inv_def by simp
  qed
qed

text \<open>The state \<open>remove_unlink\<close> returns.\<close>

lemma remove_unlink_absent:
  assumes "list_inv s as"
    and "case dropWhile (\<lambda>a. key (heap s) a < v) as of [] \<Rightarrow> True | c # _ \<Rightarrow> key (heap s) c \<noteq> v"
  shows "remove_unlink v t s = Some (False, resetAccessedPointer t s)"
proof -
  let ?xs = "takeWhile (\<lambda>a. key (heap s) a < v) as"
  let ?ys = "dropWhile (\<lambda>a. key (heap s) a < v) as"
  let ?pred = "last (head s # ?xs)"
  from assms have l: "linked s as" and u: "\<forall>a \<in> set (head s # as). \<not> marked (heap s) a"
    by (simp_all add: list_inv_def)
  from remove_traverse_linked [OF l, of v t] obtain s1 es1 where
    tr: "remove_traverse v t s = Some (?pred, first_of ?ys, s1, es1)"
    and f: "resetAccessedPointer t s1 = resetAccessedPointer t s"
    by auto
  note same = reset_same_fields [OF f]
  have l': "linked s (?xs @ ?ys)" using l by simp
  have u': "\<forall>a \<in> set (head s # ?xs @ ?ys). \<not> marked (heap s) a" using u by simp
  have va: "validate s1 ?pred (first_of ?ys) = Some True"
    using validate_ok [OF l' u'] validate_cong [OF same(1)] by simp
  have c: "chain (heap s) (Some (head s)) (head s # ?xs @ ?ys)"
    using l by (simp add: linked_def)
  show ?thesis
  proof (cases ?ys)
    case Nil
    then have fo: "first_of ?ys = None" by (simp only: first_of_def list.case)
    show ?thesis
      using tr va unfolding fo
      by (subst remove_unlink.simps) (simp add: f del: last.simps)
  next
    case (Cons c ys')
    have "c \<in> dom (heap s)" using chain_allocated [OF c, of c] Cons by simp
    then obtain n where n: "heap s c = Some n" by auto
    with assms(2) Cons have vn: "val n \<noteq> v" by (simp add: key_def)
    from Cons have fo: "first_of ?ys = Some c" by (simp only: first_of_def list.case)
    show ?thesis
      using tr va unfolding fo
      by (subst remove_unlink.simps) (simp add: f same n vn del: last.simps)
  qed
qed

lemma remove_unlink_present:
  assumes "list_inv s as"
    and ys: "dropWhile (\<lambda>a. key (heap s) a < v) as = c # ys"
    and kc: "key (heap s) c = v"
  shows "\<exists>p n. heap s (last (head s # takeWhile (\<lambda>a. key (heap s) a < v) as)) = Some p \<and>
         heap s c = Some n \<and>
         remove_unlink v t s =
           Some (True, (resetAccessedPointer t s)
                   \<lparr>heap := (heap s)
                      (c := Some (n\<lparr>removed := True\<rparr>),
                       last (head s # takeWhile (\<lambda>a. key (heap s) a < v) as) :=
                         Some (p\<lparr>nxt := nxt n\<rparr>)),
                    retireList := retireList s @ [c],
                    length' := length' s - 1\<rparr>)"
proof -
  let ?xs = "takeWhile (\<lambda>a. key (heap s) a < v) as"
  let ?ys = "dropWhile (\<lambda>a. key (heap s) a < v) as"
  let ?pred = "last (head s # ?xs)"
  from assms have l: "linked s as" and u: "\<forall>a \<in> set (head s # as). \<not> marked (heap s) a"
    by (simp_all add: list_inv_def)
  from remove_traverse_linked [OF l, of v t] obtain s1 es1 where
    tr: "remove_traverse v t s = Some (?pred, first_of ?ys, s1, es1)"
    and f: "resetAccessedPointer t s1 = resetAccessedPointer t s"
    by auto
  note same = reset_same_fields [OF f]
  have l': "linked s (?xs @ ?ys)" using l by simp
  have u': "\<forall>a \<in> set (head s # ?xs @ ?ys). \<not> marked (heap s) a" using u by simp
  have va: "validate s1 ?pred (first_of ?ys) = Some True"
    using validate_ok [OF l' u'] validate_cong [OF same(1)] by simp
  have c: "chain (heap s) (Some (head s)) (head s # ?xs @ c # ys)"
    using l ys by (simp add: linked_def flip: ys)
  from chain_last_next [OF c] obtain p where p: "heap s ?pred = Some p" by auto
  have "c \<in> dom (heap s)" using chain_allocated [OF c, of c] by simp
  then obtain n where n: "heap s c = Some n" by auto
  have vn: "val n = v" using kc n by (simp add: key_def)
  have "?pred \<in> set (head s # ?xs)" by (rule last_in_set) simp
  moreover have "c \<notin> set (head s # ?xs)" using chain_distinct [OF c] by auto
  ultimately have pc: "?pred \<noteq> c" by auto
  let ?H = "(heap s)(c := Some (n\<lparr>removed := True\<rparr>), ?pred := Some (p\<lparr>nxt := nxt n\<rparr>))"
  let ?s4 = "s1\<lparr>heap := ?H, retireList := retireList s @ [c]\<rparr>"
  have "accessedPointers (resetAccessedPointer t ?s4) = accessedPointers (resetAccessedPointer t s1)"
    by (simp add: reset_eq)
  then have ap: "accessedPointers (resetAccessedPointer t ?s4) =
        accessedPointers (resetAccessedPointer t s)"
    by (simp only: f)
  have fin: "(resetAccessedPointer t ?s4)\<lparr>length' := length' s - 1\<rparr> =
             (resetAccessedPointer t s)\<lparr>heap := ?H, retireList := retireList s @ [c],
                                         length' := length' s - 1\<rparr>"
    using ap same by (intro MarkedList.equality) simp_all
  from ys have fo: "first_of ?ys = Some c" by (simp only: first_of_def list.case)
  have "remove_unlink v t s = Some (True, (resetAccessedPointer t ?s4)\<lparr>length' := length' s - 1\<rparr>)"
    using tr va unfolding fo
    by (subst remove_unlink.simps)
       (simp add: p n vn pc same Let_def del: last.simps)
  with fin p n show ?thesis by (simp del: last.simps)
qed

lemma unlink_preserves:
  assumes inv: "list_inv s (xs @ c # ys)"
    and p: "heap s (last (head s # xs)) = Some p"
    and n: "heap s c = Some n"
    and h': "heap s' = (heap s)(c := Some (n\<lparr>removed := True\<rparr>),
                               last (head s # xs) := Some (p\<lparr>nxt := nxt n\<rparr>))"
    and hd': "head s' = head s" and r': "retireList s' = retireList s @ [c]"
    and b': "brk s' = brk s"
  shows "list_inv s' (xs @ ys)"
    and "\<forall>a \<in> set (xs @ ys). key (heap s') a = key (heap s) a"
    and "retire_inv s (xs @ c # ys) \<Longrightarrow> retire_inv s' (xs @ ys)"
    and "key (heap s') (head s) = key (heap s) (head s)"
proof -
  let ?pred = "last (head s # xs)"
  from inv have ch: "chain (heap s) (Some (head s)) (head s # xs @ c # ys)"
    and u: "\<forall>a \<in> set (head s # xs @ c # ys). \<not> marked (heap s) a"
    and so: "sorted (map (key (heap s)) (xs @ c # ys))"
    and d: "distinct (retireList s)"
    and sub: "set (retireList s) \<subseteq> dom (heap s)"
    and dis: "set (retireList s) \<inter> set (head s # xs @ c # ys) = {}"
    and al: "\<forall>a \<in> dom (heap s). a < brk s"
    by (simp_all add: list_inv_def linked_def)
  have dist: "distinct (head s # xs @ c # ys)" by (rule chain_distinct [OF ch])
  have pred_in: "?pred \<in> set (head s # xs)" by (rule last_in_set) simp
  have pc: "?pred \<noteq> c" using pred_in dist by auto
  have c_out: "c \<notin> set (head s # xs @ ys)" using dist by auto
  have c_ret: "c \<notin> set (retireList s)" using dis by auto
  have hc: "heap s' c = Some (n\<lparr>removed := True\<rparr>)"
    unfolding h' using pc by (simp del: last.simps)
  have hpred: "heap s' ?pred = Some (p\<lparr>nxt := nxt n\<rparr>)"
    unfolding h' by (simp del: last.simps)
  have hother: "\<And>a. a \<noteq> c \<Longrightarrow> a \<noteq> ?pred \<Longrightarrow> heap s' a = heap s a"
    unfolding h' by (simp del: last.simps)
  have hk: "\<And>a. a \<noteq> c \<Longrightarrow> key (heap s') a = key (heap s) a"
    using hpred hother p unfolding key_def
    by (metis Node.select_convs(1) Node.surjective Node.update_convs(2) option.sel)
  have hm: "\<And>a. a \<noteq> c \<Longrightarrow> marked (heap s') a = marked (heap s) a"
    using hpred hother p unfolding marked_def
    by (metis Node.select_convs(3) Node.surjective Node.update_convs(2) option.sel)
  have dom': "dom (heap s') = dom (heap s)"
    unfolding h' using p n by (auto simp del: last.simps)
  show "key (heap s') (head s) = key (heap s) (head s)"
    using c_out by (intro hk) auto
  show ks: "\<forall>a \<in> set (xs @ ys). key (heap s') a = key (heap s) a"
  proof
    fix a assume "a \<in> set (xs @ ys)"
    with c_out have "a \<noteq> c" by auto
    then show "key (heap s') a = key (heap s) a" by (rule hk)
  qed
  have "chain (heap s') (Some (head s)) (head s # xs @ ys)"
    unfolding h' by (rule chain_unlink [OF ch p n])
  then have 1: "linked s' (xs @ ys)" by (simp add: linked_def hd')
  have 2: "\<forall>a \<in> set (head s' # xs @ ys). \<not> marked (heap s') a"
  proof
    fix a assume a: "a \<in> set (head s' # xs @ ys)"
    with c_out hd' have ne: "a \<noteq> c" by auto
    from a u hd' have "\<not> marked (heap s) a" by auto
    with hm [OF ne] show "\<not> marked (heap s') a" by simp
  qed
  have km: "map (key (heap s')) (xs @ ys) = map (key (heap s)) xs @ map (key (heap s)) ys"
    using ks by simp
  have "sorted (map (key (heap s)) xs @ map (key (heap s)) ys)"
    using so by (auto simp: sorted_append)
  then have 3: "sorted (map (key (heap s')) (xs @ ys))" by (simp only: km)
  have 4: "distinct (retireList s')" using d c_ret r' by simp
  have 5: "set (retireList s') \<subseteq> dom (heap s')" using sub dom' r' n by auto
  have 6: "set (retireList s') \<inter> set (head s' # xs @ ys) = {}"
    using dis c_out r' hd' by auto
  have 7: "\<forall>a \<in> dom (heap s'). a < brk s'" using al dom' b' by simp
  show "list_inv s' (xs @ ys)"
    unfolding list_inv_def using 1 2 3 4 5 6 7 by simp
  show "retire_inv s' (xs @ ys)" if ri: "retire_inv s (xs @ c # ys)"
  proof -
    have "\<forall>a \<in> set (retireList s'). marked (heap s') a"
    proof
      fix a assume a: "a \<in> set (retireList s')"
      show "marked (heap s') a"
      proof (cases "a = c")
        case True
        then show ?thesis using hc by (simp add: marked_def)
      next
        case False
        with a r' have "a \<in> set (retireList s)" by simp
        with ri hm [OF False] show ?thesis by (simp add: retire_inv_def)
      qed
    qed
    moreover have "\<forall>a \<in> set (head s' # xs @ ys). a \<notin> set (retireList s')"
      using 6 by auto
    moreover have "\<forall>a \<in> dom (heap s'). a \<notin> set (head s' # xs @ ys) \<longrightarrow> a \<in> set (retireList s')"
      using ri dom' r' hd' by (auto simp: retire_inv_def)
    ultimately show ?thesis unfolding retire_inv_def by simp
  qed
qed

lemma key_cong_on: "\<forall>a \<in> set as. h' a = h a \<Longrightarrow> \<forall>a \<in> set as. key h' a = key h a"
  by (simp add: key_def)

lemma insert_spec:
  fixes s :: MarkedList and as :: "addr list" and v :: int
  assumes inv: "list_inv s as"
  defines "as' \<equiv> takeWhile (\<lambda>a. key (heap s) a < v) as @ brk s #
                    dropWhile (\<lambda>a. key (heap s) a < v) as"
  shows "\<exists>s'. insert' v t s = Some s' \<and> list_inv s' as'
           \<and> heap s (brk s) = None
           \<and> key (heap s') (brk s) = v
           \<and> (\<forall>a \<in> set as. key (heap s') a = key (heap s) a)
           \<and> (retire_inv s as \<longrightarrow> retire_inv s' as')
           \<and> length' s' = length' s + 1
           \<and> accessedPointers s' = accessedPointers (resetAccessedPointer t s)
           \<and> head s' = head s
           \<and> key (heap s') (head s) = key (heap s) (head s)"
proof -
  let ?xs = "takeWhile (\<lambda>a. key (heap s) a < v) as"
  let ?ys = "dropWhile (\<lambda>a. key (heap s) a < v) as"
  from insert_link_result [OF inv, of v t] obtain p s1 where
    p: "heap s (last (head s # ?xs)) = Some p"
    and s1: "s1 = (resetAccessedPointer t s)
                   \<lparr>heap := (heap s)
                      (brk s := Some \<lparr>val = v, nxt = first_of ?ys, removed = False\<rparr>,
                       last (head s # ?xs) := Some (p\<lparr>nxt := Some (brk s)\<rparr>)),
                    brk := Suc (brk s),
                    length' := length' s + 1\<rparr>"
    and il: "insert_link v t s = Some s1"
    by blast
  have inv': "list_inv s (?xs @ ?ys)" using inv by simp
  have so: "sorted (map (key (heap s)) as)" using inv by (simp add: list_inv_def)
  have lt: "\<forall>a \<in> set ?xs. key (heap s) a < v" by (auto dest: set_takeWhileD)
  have ge: "\<forall>a \<in> set ?ys. v \<le> key (heap s) a" by (rule dropWhile_sorted_ge [OF so])
  have h1: "heap s1 = (heap s)(brk s := Some \<lparr>val = v, nxt = first_of ?ys, removed = False\<rparr>,
                               last (head s # ?xs) := Some (p\<lparr>nxt := Some (brk s)\<rparr>))"
    and hd1: "head s1 = head s" and r1: "retireList s1 = retireList s"
    and b1: "brk s1 = Suc (brk s)" and l1: "length' s1 = length' s + 1"
    and a1: "accessedPointers s1 = accessedPointers (resetAccessedPointer t s)"
    unfolding s1 by simp_all
  note lp = link_preserves [OF inv' p lt ge h1 hd1 r1 b1]
  have i1: "list_inv s1 as'" using lp(1) by (simp add: as'_def)
  from count_operation_inv [OF i1] obtain s' where
    co: "count_operation s1 = Some s'" and i': "list_inv s' as'"
    and l': "length' s' = length' s1" and a': "accessedPointers s' = accessedPointers s1"
    and hs: "\<forall>a \<in> set (head s1 # as'). heap s' a = heap s1 a"
    and ri: "retire_inv s1 as' \<longrightarrow> retire_inv s' as'"
    and hd': "head s' = head s1"
    by blast
  have ks: "\<forall>a \<in> set (head s1 # as'). key (heap s') a = key (heap s1) a"
    by (rule key_cong_on [OF hs])
  have "insert' v t s = Some s'" by (simp add: insert'_def il co)
  moreover have "heap s (brk s) = None"
    using inv by (intro fresh_brk) (simp add: list_inv_def)
  moreover have "key (heap s') (brk s) = v"
    using ks lp(2) by (simp add: as'_def)
  moreover have "\<forall>a \<in> set as. key (heap s') a = key (heap s) a"
  proof
    fix a assume a: "a \<in> set as"
    then have "a \<in> set (?xs @ ?ys)" by simp
    with lp(3) have "key (heap s1) a = key (heap s) a" by blast
    moreover from a have "a \<in> set ?xs \<union> set ?ys"
      by (metis set_append takeWhile_dropWhile_id)
    then have "a \<in> set (head s1 # as')" by (auto simp: as'_def)
    with ks have "key (heap s') a = key (heap s1) a" by blast
    ultimately show "key (heap s') a = key (heap s) a" by simp
  qed
  moreover have "retire_inv s as \<longrightarrow> retire_inv s' as'"
    using lp(4) ri by (simp add: as'_def)
  moreover have "key (heap s') (head s) = key (heap s) (head s)"
    using ks lp(5) hd1 by simp
  ultimately show ?thesis using i' l' l1 a' a1 hd' hd1 by simp
qed

lemma in_sorted_iff_first:
  assumes "sorted (map k as)"
  shows "v \<in> k ` set as \<longleftrightarrow>
         (case dropWhile (\<lambda>a. k a < v) as of [] \<Rightarrow> False | c # _ \<Rightarrow> k c = (v::int))"
  using assms
proof (induction as)
  case Nil
  then show ?case by simp
next
  case (Cons a as)
  then show ?case by (cases "k a < v") (auto simp: order.strict_iff_order)
qed

lemma remove1_first:
  "\<forall>a \<in> set xs. k a < v \<Longrightarrow> k c = v \<Longrightarrow>
   remove1 v (map k (xs @ c # ys)) = map k (xs @ ys)" for v :: int
  by (induction xs) auto

lemma remove_spec:
  fixes s :: MarkedList and as :: "addr list" and v :: int
  assumes inv: "list_inv s as"
  defines "xs \<equiv> takeWhile (\<lambda>a. key (heap s) a < v) as"
    and "ys \<equiv> dropWhile (\<lambda>a. key (heap s) a < v) as"
  defines "found \<equiv> (case ys of [] \<Rightarrow> False | c # _ \<Rightarrow> key (heap s) c = v)"
  defines "as' \<equiv> (if found then xs @ tl ys else as)"
  shows "\<exists>s'. remove' v t s = Some (found, s') \<and> list_inv s' as'
           \<and> (\<forall>a \<in> set as'. key (heap s') a = key (heap s) a)
           \<and> (retire_inv s as \<longrightarrow> retire_inv s' as')
           \<and> length' s' = (if found then length' s - 1 else length' s)
           \<and> accessedPointers s' = accessedPointers (resetAccessedPointer t s)
           \<and> head s' = head s
           \<and> key (heap s') (head s) = key (heap s) (head s)"
proof (cases found)
  case False
  have "case dropWhile (\<lambda>a. key (heap s) a < v) as of [] \<Rightarrow> True
               | c # _ \<Rightarrow> key (heap s) c \<noteq> v"
  proof (cases "dropWhile (\<lambda>a. key (heap s) a < v) as")
    case Nil
    then show ?thesis by (simp only: list.case)
  next
    case (Cons c cs)
    with False have "key (heap s) c \<noteq> v"
      by (simp add: found_def ys_def)
    with Cons show ?thesis by simp
  qed
  from remove_unlink_absent [OF inv this, of t]
  have "remove' v t s = Some (False, resetAccessedPointer t s)"
    by (simp add: remove'_def)
  moreover have "list_inv (resetAccessedPointer t s) as"
    using inv by (simp add: reset_eq)
  moreover have "retire_inv s as \<longrightarrow> retire_inv (resetAccessedPointer t s) as"
    by (simp add: reset_eq)
  ultimately show ?thesis using False by (simp add: as'_def)
next
  case True
  then obtain c ys' where ys: "ys = c # ys'" and kc: "key (heap s) c = v"
    by (auto simp: found_def split: list.splits)
  have dw: "dropWhile (\<lambda>a. key (heap s) a < v) as = c # ys'" using ys by (simp add: ys_def)
  from remove_unlink_present [OF inv dw kc, of t] obtain p n s1 where
    p: "heap s (last (head s # xs)) = Some p" and n: "heap s c = Some n"
    and s1: "s1 = (resetAccessedPointer t s)
                   \<lparr>heap := (heap s)
                      (c := Some (n\<lparr>removed := True\<rparr>),
                       last (head s # xs) := Some (p\<lparr>nxt := nxt n\<rparr>)),
                    retireList := retireList s @ [c],
                    length' := length' s - 1\<rparr>"
    and ru: "remove_unlink v t s = Some (True, s1)"
    unfolding xs_def by blast
  have split: "as = xs @ c # ys'"
    using ys by (metis takeWhile_dropWhile_id xs_def ys_def)
  have inv': "list_inv s (xs @ c # ys')" using inv split by simp
  have h1: "heap s1 = (heap s)(c := Some (n\<lparr>removed := True\<rparr>),
                               last (head s # xs) := Some (p\<lparr>nxt := nxt n\<rparr>))"
    and hd1: "head s1 = head s" and r1: "retireList s1 = retireList s @ [c]"
    and b1: "brk s1 = brk s" and l1: "length' s1 = length' s - 1"
    and a1: "accessedPointers s1 = accessedPointers (resetAccessedPointer t s)"
    unfolding s1 by simp_all
  note up = unlink_preserves [OF inv' p n h1 hd1 r1 b1]
  have as': "as' = xs @ ys'" using True ys by (simp add: as'_def)
  from count_operation_inv [OF up(1)] obtain s' where
    co: "count_operation s1 = Some s'" and i': "list_inv s' (xs @ ys')"
    and l': "length' s' = length' s1" and a': "accessedPointers s' = accessedPointers s1"
    and hs: "\<forall>a \<in> set (head s1 # xs @ ys'). heap s' a = heap s1 a"
    and ri: "retire_inv s1 (xs @ ys') \<longrightarrow> retire_inv s' (xs @ ys')"
    and hd': "head s' = head s1"
    by blast
  have ks: "\<forall>a \<in> set (head s1 # xs @ ys'). key (heap s') a = key (heap s1) a"
    by (rule key_cong_on [OF hs])
  have "remove' v t s = Some (True, s')" by (simp add: remove'_def ru co)
  moreover have "\<forall>a \<in> set (xs @ ys'). key (heap s') a = key (heap s) a"
    using ks up(2) by simp
  moreover have "retire_inv s as \<longrightarrow> retire_inv s' (xs @ ys')"
    using up(3) ri split by simp
  moreover have "key (heap s') (head s) = key (heap s) (head s)"
    using ks up(4) hd1 by simp
  ultimately show ?thesis using True i' l' l1 a' a1 as' hd' hd1 by simp
qed

lemma contains_loop_chain:
  assumes "chain (heap s) cur as"
  shows "\<exists>s1 es1. contains_loop v t cur s es =
           Some (first_of (dropWhile (\<lambda>a. key (heap s) a < v) as), s1, es1)
         \<and> resetAccessedPointer t s1 = resetAccessedPointer t s"
  using assms
proof (induction as arbitrary: cur s es)
  case Nil
  then show ?case
    by (subst contains_loop.simps) (simp add: first_of_def)
next
  case (Cons a as)
  from Cons.prems obtain n where n: "cur = Some a" "heap s a = Some n" "chain (heap s) (nxt n) as"
    by (auto split: option.splits)
  show ?case
  proof (cases "val n < v")
    case True
    let ?s' = "storeAccessedPointer t (nxt n) 0 s"
    let ?es' = "es @ [ReadValue a, ReadNext a, Publish t 0 (nxt n)]"
    have "chain (heap ?s') (nxt n) as" using n(3) by simp
    from Cons.IH [OF this, of ?es'] obtain s1 es1 where
      r: "contains_loop v t (nxt n) ?s' ?es' =
           Some (first_of (dropWhile (\<lambda>a. key (heap s) a < v) as), s1, es1)"
      and f: "resetAccessedPointer t s1 = resetAccessedPointer t s"
      by auto
    have k: "key (heap s) a < v" using True n(2) by (simp add: key_def)
    have "contains_loop v t cur s es = contains_loop v t (nxt n) ?s' ?es'"
      by (subst contains_loop.simps) (simp add: n True)
    with r f k show ?thesis by simp
  next
    case False
    have k: "\<not> key (heap s) a < v" using False n(2) by (simp add: key_def)
    have "contains_loop v t cur s es = Some (cur, s, es @ [ReadValue a])"
      by (subst contains_loop.simps) (simp add: n False)
    with k n(1) show ?thesis by (simp add: first_of_def)
  qed
qed

lemma contains_spec:
  assumes "linked s as"
  shows "contains v t s =
           Some ((case dropWhile (\<lambda>a. key (heap s) a < v) as of
                    [] \<Rightarrow> False
                  | c # _ \<Rightarrow> \<not> marked (heap s) c \<and> key (heap s) c = v),
                 resetAccessedPointer t s)"
proof -
  let ?ys = "dropWhile (\<lambda>a. key (heap s) a < v) as"
  from assms obtain h where h: "heap s (head s) = Some h" "chain (heap s) (nxt h) as"
    by (auto simp: linked_def split: option.splits)
  let ?s0 = "storeAccessedPointer t (nxt h) 0 s"
  have "chain (heap ?s0) (nxt h) as" using h(2) by simp
  from contains_loop_chain [OF this, of v t "[ReadNext (head s), Publish t 0 (nxt h)]"]
  obtain s1 es1 where
    tr: "contains_traverse v t s = Some (first_of ?ys, s1, es1)"
    and f: "resetAccessedPointer t s1 = resetAccessedPointer t s"
    using h(1) by (auto simp: contains_traverse_def)
  note same = reset_same_fields [OF f]
  show ?thesis
  proof (cases ?ys)
    case Nil
    then have fo: "first_of ?ys = None" by (simp only: first_of_def list.case)
    show ?thesis using tr unfolding fo by (simp add: contains_def f Nil)
  next
    case (Cons c cs)
    then have fo: "first_of ?ys = Some c" by (simp only: first_of_def list.case)
    have "c \<in> set as" using Cons by (metis list.set_intros(1) set_dropWhileD)
    then have "c \<in> dom (heap s)" using chain_allocated [OF h(2)] by simp
    then obtain n where n: "heap s c = Some n" by auto
    have tr': "contains_traverse v t s = Some (Some c, s1, es1)"
      using tr by (simp only: fo)
    show ?thesis unfolding Cons
      by (simp add: contains_def tr' f same n marked_def key_def)
  qed
qed

lemma printList_loop_chain:
  "chain h cur as \<Longrightarrow>
   printList_loop h cur out = Some (out @ map (key h) (filter (\<lambda>a. \<not> marked h a) as))"
proof (induction as arbitrary: cur out)
  case Nil
  then show ?case by (subst printList_loop.simps) simp
next
  case (Cons a as)
  from Cons.prems obtain n where n: "cur = Some a" "h a = Some n" "chain h (nxt n) as"
    by (auto split: option.splits)
  show ?case
    by (subst printList_loop.simps) (simp add: n Cons.IH [OF n(3)] key_def marked_def)
qed

lemma printList_linked:
  "linked s as \<Longrightarrow>
   printList s = Some (map (key (heap s)) (filter (\<lambda>a. \<not> marked (heap s) a) as))"
  by (auto simp: linked_def printList_def printList_loop_chain split: option.splits)

lemma printList_inv: "list_inv s as \<Longrightarrow> printList s = Some (map (key (heap s)) as)"
proof -
  assume inv: "list_inv s as"
  then have "filter (\<lambda>a. \<not> marked (heap s) a) as = as"
    by (auto simp: list_inv_def filter_id_conv)
  with printList_linked [of s as] inv show ?thesis by (simp add: list_inv_def)
qed

lemma list_inv_new: "list_inv MarkedList_new []"
  by (simp add: list_inv_def linked_def MarkedList_new_def marked_def)

subsection \<open>Claims about single calls\<close>

text \<open>
  Claim C1. In every state that satisfies \<open>list_inv\<close> with the nodes \<open>as\<close> after the
  sentinel, and for every key \<open>v\<close> and worker \<open>t\<close>, \<open>insert(v, t)\<close> returns, and the
  nodes after the sentinel are then the old ones with exactly one new node (the address
  \<open>brk s\<close>, not allocated before, holding \<open>v\<close>) placed immediately before the first old
  node whose key is not below \<open>v\<close>, at the tail when there is none; the old nodes keep
  their keys, so an equal key goes in front of its equals. Scenario S1: the keys
  5, 2, 8, 2, 5, 1 inserted by worker 0 into a fresh list give the traversal
  1, 2, 2, 5, 5, 8 and the length 6.
\<close>

theorem insert_before_first_not_below:
  "(\<forall>s as v t. list_inv s as \<longrightarrow>
      (\<exists>s'. insert' v t s = Some s'
         \<and> heap s (brk s) = None
         \<and> list_inv s' (takeWhile (\<lambda>a. key (heap s) a < v) as @ brk s #
                         dropWhile (\<lambda>a. key (heap s) a < v) as)
         \<and> key (heap s') (brk s) = v
         \<and> (\<forall>a \<in> set as. key (heap s') a = key (heap s) a)
         \<and> printList s' = Some (map (key (heap s)) (takeWhile (\<lambda>a. key (heap s) a < v) as) @ v #
                                 map (key (heap s)) (dropWhile (\<lambda>a. key (heap s) a < v) as))))
   \<and> observe S1 = Some (True, Some [1, 2, 2, 5, 5, 8], 6)"
proof (intro conjI allI impI)
  fix s as v t
  assume inv: "list_inv s as"
  let ?xs = "takeWhile (\<lambda>a. key (heap s) a < v) as"
  let ?ys = "dropWhile (\<lambda>a. key (heap s) a < v) as"
  from insert_spec [OF inv, of v t] obtain s' where
    s': "insert' v t s = Some s'" "heap s (brk s) = None" "list_inv s' (?xs @ brk s # ?ys)"
      "key (heap s') (brk s) = v" "\<forall>a \<in> set as. key (heap s') a = key (heap s) a"
    by blast
  have "set ?xs \<subseteq> set as" "set ?ys \<subseteq> set as"
    by (auto dest: set_takeWhileD set_dropWhileD)
  with s'(5) have "map (key (heap s')) ?xs = map (key (heap s)) ?xs"
    and "map (key (heap s')) ?ys = map (key (heap s)) ?ys"
    by auto
  with printList_inv [OF s'(3)] s'(4)
  have "printList s' = Some (map (key (heap s)) ?xs @ v # map (key (heap s)) ?ys)"
    by simp
  with s' show "\<exists>s'. insert' v t s = Some s'
         \<and> heap s (brk s) = None
         \<and> list_inv s' (?xs @ brk s # ?ys)
         \<and> key (heap s') (brk s) = v
         \<and> (\<forall>a \<in> set as. key (heap s') a = key (heap s) a)
         \<and> printList s' = Some (map (key (heap s)) ?xs @ v # map (key (heap s)) ?ys)"
    by blast
next
  show "observe S1 = Some (True, Some [1, 2, 2, 5, 5, 8], 6)"
    unfolding observe_def S1_def by code_simp
qed

theorem insert_before_first_not_below_witness:
  "list_inv MarkedList_new [] \<and>
   (\<exists>s'. insert' 5 0 MarkedList_new = Some s' \<and> list_inv s' [1] \<and> key (heap s') 1 = 5
      \<and> printList s' = Some [5])"
proof -
  have inv: "list_inv MarkedList_new []" by (rule list_inv_new)
  have b: "brk MarkedList_new = 1" by (simp add: MarkedList_new_def)
  show ?thesis
    using inv insert_before_first_not_below [THEN conjunct1, rule_format, OF inv, of 5 0]
    by (auto simp: b)
qed

text \<open>
  Claim C2. In every state that satisfies \<open>list_inv\<close>, \<open>remove(v, t)\<close> returns; it
  returns true exactly when some node after the sentinel holds \<open>v\<close>. When it returns
  true, the node it unlinked is the first one whose key is not below \<open>v\<close>, which holds
  \<open>v\<close>, and that node is no longer reachable while every other node still is; when
  it returns false, the reachable nodes are the same. Either way the keys in traversal
  order are the old ones with the first \<open>v\<close> taken out (\<open>remove1\<close>). Scenario S2: after
  S1, \<open>remove(5, 0)\<close> returns true and leaves 1, 2, 2, 5, 8, returns true again and
  leaves 1, 2, 2, 8, then returns false.
\<close>

theorem remove_first_match:
  "(\<forall>s as v t. list_inv s as \<longrightarrow>
      (\<exists>r s'. remove' v t s = Some (r, s')
         \<and> (r \<longleftrightarrow> v \<in> key (heap s) ` set as)
         \<and> (r \<longrightarrow> (\<exists>c cs. dropWhile (\<lambda>a. key (heap s) a < v) as = c # cs
                        \<and> key (heap s) c = v
                        \<and> c \<notin> set (takeWhile (\<lambda>a. key (heap s) a < v) as @ cs)
                        \<and> list_inv s' (takeWhile (\<lambda>a. key (heap s) a < v) as @ cs)))
         \<and> (\<not> r \<longrightarrow> list_inv s' as)
         \<and> (\<exists>as'. list_inv s' as'
                \<and> map (key (heap s')) as' = remove1 v (map (key (heap s)) as)
                \<and> printList s' = Some (remove1 v (map (key (heap s)) as)))))
   \<and> observe (S1 @ [Remove 5 0]) = Some (True, Some [1, 2, 2, 5, 8], 5)
   \<and> observe (S1 @ [Remove 5 0, Remove 5 0]) = Some (True, Some [1, 2, 2, 8], 4)
   \<and> observe (S1 @ [Remove 5 0, Remove 5 0, Remove 5 0]) = Some (False, Some [1, 2, 2, 8], 4)"
proof (intro conjI allI impI)
  fix s as v t
  assume inv: "list_inv s as"
  let ?k = "key (heap s)"
  let ?xs = "takeWhile (\<lambda>a. ?k a < v) as"
  let ?ys = "dropWhile (\<lambda>a. ?k a < v) as"
  let ?found = "case ?ys of [] \<Rightarrow> False | c # _ \<Rightarrow> ?k c = v"
  let ?as' = "if ?found then ?xs @ tl ?ys else as"
  from remove_spec [OF inv, of v t] obtain s' where
    s': "remove' v t s = Some (?found, s')" "list_inv s' ?as'"
      "\<forall>a \<in> set ?as'. key (heap s') a = ?k a"
    by blast
  have so: "sorted (map ?k as)" using inv by (simp add: list_inv_def)
  have l: "chain (heap s) (Some (head s)) (head s # ?xs @ ?ys)"
    using inv by (simp add: list_inv_def linked_def)
  have iff: "?found \<longleftrightarrow> v \<in> ?k ` set as"
    using in_sorted_iff_first [OF so, of v] by simp
  have lt: "\<forall>a \<in> set ?xs. ?k a < v" by (auto dest: set_takeWhileD)
  have pos: "?found \<longrightarrow> (\<exists>c cs. ?ys = c # cs \<and> ?k c = v \<and> c \<notin> set (?xs @ cs)
                \<and> list_inv s' (?xs @ cs))"
  proof
    assume f: ?found
    then obtain c cs where ys: "?ys = c # cs" and kc: "?k c = v"
      by (auto split: list.splits)
    have "distinct (head s # ?xs @ c # cs)"
      using chain_distinct [OF l] by (simp only: ys)
    then have "c \<notin> set (?xs @ cs)" by auto
    moreover from f have "?as' = ?xs @ tl ?ys" by (rule if_P)
    then have "?as' = ?xs @ cs" by (simp only: ys list.sel)
    with s'(2) have "list_inv s' (?xs @ cs)" by (simp only:)
    ultimately show "\<exists>c cs. ?ys = c # cs \<and> ?k c = v \<and> c \<notin> set (?xs @ cs)
                \<and> list_inv s' (?xs @ cs)"
      using ys kc by blast
  qed
  have neg: "\<not> ?found \<longrightarrow> list_inv s' as"
  proof
    assume "\<not> ?found"
    then have "?as' = as" by (rule if_not_P)
    with s'(2) show "list_inv s' as" by (simp only:)
  qed
  have km: "map (key (heap s')) ?as' = map ?k ?as'" using s'(3) by simp
  have r1: "map ?k ?as' = remove1 v (map ?k as)"
  proof (cases ?found)
    case True
    then obtain c cs where ys: "?ys = c # cs" and kc: "?k c = v"
      by (auto split: list.splits)
    have "as = ?xs @ c # cs" using ys by (metis takeWhile_dropWhile_id)
    then have "remove1 v (map ?k as) = remove1 v (map ?k (?xs @ c # cs))" by simp
    also have "\<dots> = map ?k (?xs @ cs)" by (rule remove1_first [OF lt kc])
    finally show ?thesis using True ys by simp
  next
    case False
    with iff have "v \<notin> set (map ?k as)" by simp
    then have "remove1 v (map ?k as) = map ?k as" by (rule remove1_idem)
    with False show ?thesis by simp
  qed
  have pl: "printList s' = Some (remove1 v (map ?k as))"
    using printList_inv [OF s'(2)] km r1 by simp
  have "\<exists>as'. list_inv s' as' \<and> map (key (heap s')) as' = remove1 v (map ?k as)
          \<and> printList s' = Some (remove1 v (map ?k as))"
    using s'(2) km r1 pl by (intro exI [of _ ?as']) simp
  with s'(1) iff pos neg
  show "\<exists>r s'. remove' v t s = Some (r, s')
         \<and> (r \<longleftrightarrow> v \<in> ?k ` set as)
         \<and> (r \<longrightarrow> (\<exists>c cs. ?ys = c # cs \<and> ?k c = v \<and> c \<notin> set (?xs @ cs)
                        \<and> list_inv s' (?xs @ cs)))
         \<and> (\<not> r \<longrightarrow> list_inv s' as)
         \<and> (\<exists>as'. list_inv s' as'
                \<and> map (key (heap s')) as' = remove1 v (map ?k as)
                \<and> printList s' = Some (remove1 v (map ?k as)))"
    by blast
next
  show "observe (S1 @ [Remove 5 0]) = Some (True, Some [1, 2, 2, 5, 8], 5)"
    unfolding observe_def S1_def by code_simp
next
  show "observe (S1 @ [Remove 5 0, Remove 5 0]) = Some (True, Some [1, 2, 2, 8], 4)"
    unfolding observe_def S1_def by code_simp
next
  show "observe (S1 @ [Remove 5 0, Remove 5 0, Remove 5 0]) = Some (False, Some [1, 2, 2, 8], 4)"
    unfolding observe_def S1_def by code_simp
qed

theorem remove_first_match_witness:
  "\<exists>s1. insert' 5 0 MarkedList_new = Some s1 \<and> list_inv s1 [1] \<and>
     (\<exists>s2. remove' 5 0 s1 = Some (True, s2) \<and> list_inv s2 [] \<and> printList s2 = Some [])"
proof -
  from insert_spec [OF list_inv_new, of 5 0] obtain s1 where
    s1: "insert' 5 0 MarkedList_new = Some s1" "list_inv s1 [1]" "key (heap s1) 1 = 5"
    by (auto simp: MarkedList_new_def)
  from remove_first_match [THEN conjunct1, rule_format, OF s1(2), of 5 0] s1
  show ?thesis by auto
qed

text \<open>
  Claim C3. Whenever the nodes \<open>as\<close> are linked after the sentinel (whatever their
  \<open>removed\<close> flags are), \<open>contains(v, t)\<close> returns, leaves the state as it is but for
  the caller's two hazard slots, which it clears, and its result is true exactly when
  the first node whose key is not below \<open>v\<close> exists, has \<open>removed = false\<close> and holds
  \<open>v\<close>. So when that node has \<open>removed = true\<close> the result is false although the node
  is still linked.
\<close>

theorem contains_first_not_below:
  assumes "linked s as"
  shows "contains v t s =
           Some ((case dropWhile (\<lambda>a. key (heap s) a < v) as of
                    [] \<Rightarrow> False
                  | c # _ \<Rightarrow> \<not> marked (heap s) c \<and> key (heap s) c = v),
                 resetAccessedPointer t s)
         \<and> (\<forall>c cs. dropWhile (\<lambda>a. key (heap s) a < v) as = c # cs \<and> marked (heap s) c
               \<longrightarrow> contains v t s = Some (False, resetAccessedPointer t s))"
  using contains_spec [OF assms, of v t] by auto

theorem contains_first_not_below_witness:
  "linked S3_state [1] \<and> marked (heap S3_state) 1 \<and> key (heap S3_state) 1 = 7 \<and>
   contains 7 1 S3_state = Some (False, resetAccessedPointer 1 S3_state)"
proof -
  have l: "linked S3_state [1]"
    by (simp add: linked_def S3_state_def MarkedList_new_def)
  have m: "marked (heap S3_state) 1" "key (heap S3_state) 1 = 7"
    by (simp_all add: marked_def key_def S3_state_def)
  show ?thesis
    using l m contains_first_not_below [OF l, of 7 1] by simp
qed

subsection \<open>Sequences of calls\<close>

lemma of_nat_pred_word: "0 < n \<Longrightarrow> (of_nat n :: 32 word) - 1 = of_nat (n - 1)"
  by (cases n) simp_all

lemma set_tl_subset: "set (tl xs) \<subseteq> set xs"
  by (cases xs) auto

lemma found_nonempty: "(case ys of [] \<Rightarrow> False | c # cs \<Rightarrow> P c) \<Longrightarrow> ys \<noteq> []"
  by (cases ys) simp_all

lemma exec_inv:
  assumes inv: "list_inv s as"
  shows "\<exists>r s' as'. exec c s = Some (r, s') \<and> list_inv s' as'
           \<and> (retire_inv s as \<longrightarrow> retire_inv s' as')
           \<and> head s' = head s
           \<and> key (heap s') (head s) = key (heap s) (head s)
           \<and> (\<forall>lo. (\<forall>a \<in> set as. lo < key (heap s) a) \<and> (\<forall>v t. c = Insert v t \<longrightarrow> lo < v)
                  \<longrightarrow> (\<forall>a \<in> set as'. lo < key (heap s') a))
           \<and> int (length as') + int (removes_succeeded [c] [r])
                = int (length as) + int (inserts_completed [c])
           \<and> (length' s = of_nat (length as) \<longrightarrow> length' s' = of_nat (length as'))
           \<and> accessedPointers s' =
                (case c of Insert v t \<Rightarrow> accessedPointers (resetAccessedPointer t s)
                 | Remove v t \<Rightarrow> accessedPointers (resetAccessedPointer t s)
                 | Contains v t \<Rightarrow> accessedPointers (resetAccessedPointer t s))"
proof (cases c)
  case (Insert v t)
  let ?xs = "takeWhile (\<lambda>a. key (heap s) a < v) as"
  let ?ys = "dropWhile (\<lambda>a. key (heap s) a < v) as"
  let ?as' = "?xs @ brk s # ?ys"
  from insert_spec [OF inv, of v t] obtain s' where
    s': "insert' v t s = Some s'" "list_inv s' ?as'" "key (heap s') (brk s) = v"
      "\<forall>a \<in> set as. key (heap s') a = key (heap s) a"
      "retire_inv s as \<longrightarrow> retire_inv s' ?as'"
      "length' s' = length' s + 1"
      "accessedPointers s' = accessedPointers (resetAccessedPointer t s)"
      "head s' = head s" "key (heap s') (head s) = key (heap s) (head s)"
    by blast
  have sub: "set ?xs \<subseteq> set as" "set ?ys \<subseteq> set as"
    by (auto dest: set_takeWhileD set_dropWhileD)
  have len: "length ?as' = Suc (length as)"
    by (metis length_Cons length_append add_Suc_right takeWhile_dropWhile_id)
  have lo: "\<forall>lo. (\<forall>a \<in> set as. lo < key (heap s) a) \<and> (\<forall>v' t'. c = Insert v' t' \<longrightarrow> lo < v')
                  \<longrightarrow> (\<forall>a \<in> set ?as'. lo < key (heap s') a)"
    using s'(3,4) sub Insert by auto
  have "exec c s = Some (True, s')" using Insert s'(1) by simp
  moreover have "length' s = of_nat (length as) \<longrightarrow> length' s' = of_nat (length ?as')"
    using s'(6) len by simp
  moreover have "int (length ?as') + int (removes_succeeded [c] [True])
                = int (length as) + int (inserts_completed [c])"
    using len Insert by simp
  ultimately show ?thesis
    using s'(2,5,7,8,9) lo Insert by (intro exI [of _ True] exI [of _ s'] exI [of _ ?as']) simp
next
  case (Remove v t)
  define xs where "xs = takeWhile (\<lambda>a. key (heap s) a < v) as"
  define ys where "ys = dropWhile (\<lambda>a. key (heap s) a < v) as"
  define found where "found = (case ys of [] \<Rightarrow> False | c # _ \<Rightarrow> key (heap s) c = v)"
  define as' where "as' = (if found then xs @ tl ys else as)"
  from remove_spec [OF inv, of v t] obtain s' where
    s': "remove' v t s = Some (found, s')" "list_inv s' as'"
      "\<forall>a \<in> set as'. key (heap s') a = key (heap s) a"
      "retire_inv s as \<longrightarrow> retire_inv s' as'"
      "length' s' = (if found then length' s - 1 else length' s)"
      "accessedPointers s' = accessedPointers (resetAccessedPointer t s)"
      "head s' = head s" "key (heap s') (head s) = key (heap s) (head s)"
    unfolding as'_def found_def ys_def xs_def by blast
  have split: "as = xs @ ys" by (simp add: xs_def ys_def)
  have facts: "set as' \<subseteq> set as
      \<and> int (length as') + int (removes_succeeded [c] [found])
            = int (length as) + int (inserts_completed [c])
      \<and> (length' s = of_nat (length as) \<longrightarrow> length' s' = of_nat (length as'))"
  proof (cases found)
    case True
    then have e: "as' = xs @ tl ys" by (simp add: as'_def)
    have ne: "ys \<noteq> []" using True unfolding found_def by (rule found_nonempty)
    then obtain y ys' where ys: "ys = y # ys'" by (cases ys) auto
    have l: "length as' = length as - 1" "0 < length as"
      by (simp_all add: e split ys)
    then have l': "int (length as') + 1 = int (length as)" by linarith
    have "set as' \<subseteq> set as" by (auto simp: e split ys)
    moreover have "length' s' = length' s - 1" using s'(5) True by simp
    then have "length' s = of_nat (length as) \<longrightarrow> length' s' = of_nat (length as')"
      using l of_nat_pred_word [OF l(2)] by simp
    moreover have "int (length as') + int (removes_succeeded [c] [found])
            = int (length as) + int (inserts_completed [c])"
      using l' True Remove by simp
    ultimately show ?thesis by blast
  next
    case False
    then have e: "as' = as" by (simp add: as'_def)
    have "length' s' = length' s" using s'(5) False by simp
    then show ?thesis using False Remove by (simp add: e)
  qed
  have lo: "\<forall>lo. (\<forall>a \<in> set as. lo < key (heap s) a) \<and> (\<forall>v' t'. c = Insert v' t' \<longrightarrow> lo < v')
                  \<longrightarrow> (\<forall>a \<in> set as'. lo < key (heap s') a)"
    using s'(3) facts by (metis subsetD)
  have "exec c s = Some (found, s')" using Remove s'(1) by simp
  then show ?thesis
    using s'(2,4,6,7,8) lo facts Remove
    by (intro exI [of _ found] exI [of _ s'] exI [of _ as'])
       (simp del: removes_succeeded.simps inserts_completed.simps)
next
  case (Contains v t)
  let ?r = "case dropWhile (\<lambda>a. key (heap s) a < v) as of [] \<Rightarrow> False
            | c # _ \<Rightarrow> \<not> marked (heap s) c \<and> key (heap s) c = v"
  from inv have l: "linked s as" by (simp add: list_inv_def)
  have "exec c s = Some (?r, resetAccessedPointer t s)"
    using contains_spec [OF l, of v t] Contains by simp
  moreover have "list_inv (resetAccessedPointer t s) as"
    using inv by (simp add: reset_eq)
  moreover have "retire_inv s as \<longrightarrow> retire_inv (resetAccessedPointer t s) as"
    by (simp add: reset_eq)
  ultimately show ?thesis
    using Contains
    by (intro exI [of _ ?r] exI [of _ "resetAccessedPointer t s"] exI [of _ as]) simp
qed

lemma removes_succeeded_Cons:
  "removes_succeeded (c # cs) (r # rs) = removes_succeeded [c] [r] + removes_succeeded cs rs"
  by (cases c; cases r) simp_all

lemma inserts_completed_Cons:
  "inserts_completed (c # cs) = inserts_completed [c] + inserts_completed cs"
  by (cases c) simp_all

lemma run_inv:
  assumes "list_inv s as"
  shows "\<exists>rs s' as'. run cs s = Some (rs, s') \<and> length rs = length cs \<and> list_inv s' as'
           \<and> (retire_inv s as \<longrightarrow> retire_inv s' as')
           \<and> head s' = head s
           \<and> key (heap s') (head s) = key (heap s) (head s)
           \<and> ((\<forall>a \<in> set as. lo < key (heap s) a) \<and> list_all (\<lambda>c. \<forall>v t. c = Insert v t \<longrightarrow> lo < v) cs
                  \<longrightarrow> (\<forall>a \<in> set as'. lo < key (heap s') a))
           \<and> int (length as') + int (removes_succeeded cs rs)
                = int (length as) + int (inserts_completed cs)
           \<and> (length' s = of_nat (length as) \<longrightarrow> length' s' = of_nat (length as'))"
  using assms
proof (induction cs arbitrary: s as)
  case Nil
  then show ?case by (intro exI [of _ "[]"] exI [of _ s] exI [of _ as]) simp
next
  case (Cons c cs)
  from exec_inv [OF Cons.prems, of c] obtain r s1 as1 where
    e: "exec c s = Some (r, s1)" and i1: "list_inv s1 as1"
    and ri1: "retire_inv s as \<longrightarrow> retire_inv s1 as1"
    and h1: "head s1 = head s" "key (heap s1) (head s) = key (heap s) (head s)"
    and lo1: "(\<forall>a \<in> set as. lo < key (heap s) a) \<and> (\<forall>v t. c = Insert v t \<longrightarrow> lo < v)
                  \<longrightarrow> (\<forall>a \<in> set as1. lo < key (heap s1) a)"
    and n1: "int (length as1) + int (removes_succeeded [c] [r])
                = int (length as) + int (inserts_completed [c])"
    and w1: "length' s = of_nat (length as) \<longrightarrow> length' s1 = of_nat (length as1)"
    by blast
  from Cons.IH [OF i1] obtain rs s' as' where
    r: "run cs s1 = Some (rs, s')" and len: "length rs = length cs" and i': "list_inv s' as'"
    and ri': "retire_inv s1 as1 \<longrightarrow> retire_inv s' as'"
    and h': "head s' = head s1" "key (heap s') (head s1) = key (heap s1) (head s1)"
    and lo': "(\<forall>a \<in> set as1. lo < key (heap s1) a)
                \<and> list_all (\<lambda>c. \<forall>v t. c = Insert v t \<longrightarrow> lo < v) cs
                  \<longrightarrow> (\<forall>a \<in> set as'. lo < key (heap s') a)"
    and n': "int (length as') + int (removes_succeeded cs rs)
                = int (length as1) + int (inserts_completed cs)"
    and w': "length' s1 = of_nat (length as1) \<longrightarrow> length' s' = of_nat (length as')"
    by blast
  have "run (c # cs) s = Some (r # rs, s')" using e r by simp
  moreover have "length (r # rs) = length (c # cs)" using len by simp
  moreover have "int (length as') + int (removes_succeeded (c # cs) (r # rs))
                = int (length as) + int (inserts_completed (c # cs))"
    using n1 n' by (simp add: removes_succeeded_Cons [of c cs r rs] inserts_completed_Cons [of c cs]
        del: removes_succeeded.simps inserts_completed.simps)
  moreover have "(\<forall>a \<in> set as. lo < key (heap s) a)
                \<and> list_all (\<lambda>c. \<forall>v t. c = Insert v t \<longrightarrow> lo < v) (c # cs)
                  \<longrightarrow> (\<forall>a \<in> set as'. lo < key (heap s') a)"
    using lo1 lo' by simp
  ultimately show ?case
    using i' ri1 ri' h1 h' w1 w'
    by (intro exI [of _ "r # rs"] exI [of _ s'] exI [of _ as']) simp
qed

lemma checkList_loop_chain:
  "chain h cur as \<Longrightarrow> h prev = Some p \<Longrightarrow>
   checkList_loop h prev cur = Some (sorted (key h prev # map (key h) as))"
proof (induction as arbitrary: cur prev p)
  case Nil
  then show ?case by (subst checkList_loop.simps) simp
next
  case (Cons a as)
  from Cons.prems obtain n where n: "cur = Some a" "h a = Some n" "chain h (nxt n) as"
    by (auto split: option.splits)
  have k: "key h a = val n" "key h prev = val p"
    using n(2) Cons.prems(2) by (simp_all add: key_def)
  show ?case
  proof (cases "val n < val p")
    case True
    then show ?thesis
      by (subst checkList_loop.simps) (simp add: n Cons.prems(2) k)
  next
    case False
    then show ?thesis
      by (subst checkList_loop.simps)
         (auto simp: n Cons.prems(2) Cons.IH [OF n(3) n(2)] k)
  qed
qed

lemma checkList_linked:
  assumes "linked s as"
  shows "checkList s = Some (sorted (key (heap s) (head s) # map (key (heap s)) as))"
proof -
  from assms obtain h where h: "heap s (head s) = Some h" "chain (heap s) (nxt h) as"
    by (auto simp: linked_def split: option.splits)
  from checkList_loop_chain [OF h(2) h(1)] h(1) show ?thesis
    by (simp add: checkList_def)
qed

lemma retire_inv_new: "retire_inv MarkedList_new []"
  by (simp add: retire_inv_def MarkedList_new_def)

lemma sentinel_key_new: "key (heap MarkedList_new) (head MarkedList_new) = sentinel_value"
  by (simp add: key_def MarkedList_new_def)

lemma length_new: "length' MarkedList_new = of_nat (length ([] :: addr list))"
  by (simp add: MarkedList_new_def)

subsection \<open>Claims about runs and about reclamation\<close>

lemma legal_calls_iff:
  "list_all legal_call cs = list_all (\<lambda>c. \<forall>v t. c = Insert v t \<longrightarrow> sentinel_value < v) cs"
proof -
  have "legal_call = (\<lambda>c. \<forall>v t. c = Insert v t \<longrightarrow> sentinel_value < v)"
  proof (rule ext)
    fix c show "legal_call c = (\<forall>v t. c = Insert v t \<longrightarrow> sentinel_value < v)"
      by (cases c) simp_all
  qed
  then show ?thesis by (simp only:)
qed

lemma sint_of_int_32:
  "- (2 ^ 31) \<le> k \<Longrightarrow> k < 2 ^ 31 \<Longrightarrow> sint (word_of_int k :: 32 word) = k"
  by (simp add: sint_sbintrunc' signed_take_bit_int_eq_self)

lemma sint_of_nat_32: "n < 2 ^ 31 \<Longrightarrow> sint (of_nat n :: 32 word) = int n"
  using sint_of_int_32 [of "int n"] by simp

text \<open>
  Claim C4. After every sequence of \<open>insert\<close>, \<open>remove\<close> and \<open>contains\<close> calls on a freshly
  created list in which every inserted key is legal (above the sentinel's value
  \<open>-1\<close>), each call has returned and \<open>checkList\<close> returns true: with the sentinel's key
  in front, every key on the chain is at least the key before it.
\<close>

theorem checkList_after_calls:
  assumes "list_all legal_call cs"
  shows "\<exists>rs s as. run cs MarkedList_new = Some (rs, s)
           \<and> checkList s = Some True
           \<and> linked s as
           \<and> key (heap s) (head s) = sentinel_value
           \<and> (\<forall>i. Suc i < length (key (heap s) (head s) # map (key (heap s)) as) \<longrightarrow>
                  (key (heap s) (head s) # map (key (heap s)) as) ! i
                    \<le> (key (heap s) (head s) # map (key (heap s)) as) ! Suc i)"
proof -
  from run_inv [OF list_inv_new, of cs sentinel_value] obtain rs s as where
    r: "run cs MarkedList_new = Some (rs, s)" and i: "list_inv s as"
    and h: "head s = head MarkedList_new"
      "key (heap s) (head MarkedList_new) = key (heap MarkedList_new) (head MarkedList_new)"
    and lo: "list_all (\<lambda>c. \<forall>v t. c = Insert v t \<longrightarrow> sentinel_value < v) cs
                  \<longrightarrow> (\<forall>a \<in> set as. sentinel_value < key (heap s) a)"
    by auto
  from i have l: "linked s as" and so: "sorted (map (key (heap s)) as)"
    by (simp_all add: list_inv_def)
  have k: "key (heap s) (head s) = sentinel_value"
    using h sentinel_key_new by simp
  have "\<forall>a \<in> set as. sentinel_value < key (heap s) a"
    using lo assms by (simp add: legal_calls_iff)
  with so k have s: "sorted (key (heap s) (head s) # map (key (heap s)) as)"
    by auto
  then have "checkList s = Some True"
    using checkList_linked [OF l] by simp
  with r l k s show ?thesis
    unfolding sorted_iff_nth_Suc by blast
qed

theorem checkList_after_calls_witness:
  "list_all legal_call (S1 @ [Remove 5 0, Contains 2 1]) \<and>
   (\<exists>rs s. run (S1 @ [Remove 5 0, Contains 2 1]) MarkedList_new = Some (rs, s)
      \<and> checkList s = Some True)"
proof -
  have l: "list_all legal_call (S1 @ [Remove 5 0, Contains 2 1])"
    by (simp add: S1_def sentinel_value_def)
  from checkList_after_calls [OF l] l show ?thesis by blast
qed

text \<open>With a key below the sentinel's the first comparison of \<open>checkList\<close> fails.\<close>

lemma checkList_below_sentinel:
  "(case run [Insert (- 5) 0] MarkedList_new of None \<Rightarrow> None | Some (rs, s) \<Rightarrow> checkList s)
     = Some False"
  by code_simp

text \<open>
  Claim C5. Every sequence of calls on a freshly created list returns. Afterwards the
  number of nodes linked after the sentinel, which is the number of keys \<open>printList\<close>
  prints, is I - D, where I counts the \<open>insert\<close> calls and D the \<open>remove\<close> calls that
  returned true; \<open>get_length\<close> is that number as a 32-bit word, and read as a signed
  \<open>int\<close> it is that number whenever the number is below \<open>2 ^ 31\<close>.
\<close>

theorem length_is_inserts_minus_removes:
  "\<exists>rs s as. run cs MarkedList_new = Some (rs, s) \<and> length rs = length cs
     \<and> linked s as
     \<and> printList s = Some (map (key (heap s)) as)
     \<and> int (length as) = int (inserts_completed cs) - int (removes_succeeded cs rs)
     \<and> get_length s = of_nat (length as)
     \<and> (length as < 2 ^ 31 \<longrightarrow> sint (get_length s) = int (length as))"
proof -
  from run_inv [OF list_inv_new, of cs 0] obtain rs s as where
    r: "run cs MarkedList_new = Some (rs, s)" "length rs = length cs" and i: "list_inv s as"
    and n: "int (length as) + int (removes_succeeded cs rs)
              = int (length ([] :: addr list)) + int (inserts_completed cs)"
    and w: "length' MarkedList_new = of_nat (length ([] :: addr list))
              \<longrightarrow> length' s = of_nat (length as)"
    by blast
  have g: "get_length s = of_nat (length as)"
    using w length_new by (simp add: get_length_def)
  have "sint (get_length s) = int (length as)" if "length as < 2 ^ 31"
  proof -
    have "sint (of_nat (length as) :: 32 word) = int (length as)"
      using that by (rule sint_of_nat_32)
    with g show ?thesis by simp
  qed
  moreover have "linked s as" using i by (simp add: list_inv_def)
  moreover have "int (length as) = int (inserts_completed cs) - int (removes_succeeded cs rs)"
    using n by simp
  ultimately show ?thesis
    using r g printList_inv [OF i] by blast
qed

theorem length_is_inserts_minus_removes_witness:
  "\<exists>rs s as. run (S1 @ [Remove 5 0, Remove 3 0]) MarkedList_new = Some (rs, s)
     \<and> inserts_completed (S1 @ [Remove 5 0, Remove 3 0]) = 6
     \<and> removes_succeeded (S1 @ [Remove 5 0, Remove 3 0]) rs = 1
     \<and> linked s as \<and> length as = 5 \<and> length as < 2 ^ 31 \<and> sint (get_length s) = 5"
proof -
  let ?cs = "S1 @ [Remove 5 0, Remove 3 0]"
  from length_is_inserts_minus_removes [of ?cs] obtain rs s as where
    r: "run ?cs MarkedList_new = Some (rs, s)" and l: "linked s as"
    and n: "int (length as) = int (inserts_completed ?cs) - int (removes_succeeded ?cs rs)"
    and w: "length as < 2 ^ 31 \<longrightarrow> sint (get_length s) = int (length as)"
    by blast
  have "map_option fst (run ?cs MarkedList_new)
          = Some [True, True, True, True, True, True, True, False]"
    unfolding S1_def by code_simp
  with r have rs: "rs = [True, True, True, True, True, True, True, False]" by simp
  have i: "inserts_completed ?cs = 6" by (simp add: S1_def)
  have d: "removes_succeeded ?cs rs = 1" by (simp add: S1_def rs)
  from n i d have len: "length as = 5" by simp
  with w have "sint (get_length s) = 5" by simp
  with r l i d len show ?thesis by (intro exI [of _ rs] exI [of _ s] exI [of _ as]) simp
qed

text \<open>
  Claim C6. The retire-list invariant \<open>retire_inv\<close> says: every node in the retire list
  has \<open>removed = true\<close>; no node reachable from the head is in the retire list; every
  allocated node that is not reachable (a node is allocated by \<open>insert\<close>, which links it,
  so such a node has been unlinked by a \<open>remove\<close> and not yet freed) is in the retire
  list. It holds of a freshly created list, and from a state that satisfies it together
  with \<open>list_inv\<close> every call of \<open>insert\<close>, \<open>remove\<close>, \<open>contains\<close> and \<open>scanAndReclaim\<close>
  returns in a state that satisfies both again.
\<close>

theorem retire_list_invariant:
  "list_inv MarkedList_new [] \<and> retire_inv MarkedList_new [] \<and>
   (\<forall>s as c. list_inv s as \<and> retire_inv s as \<longrightarrow>
      (\<exists>r s' as'. exec c s = Some (r, s') \<and> list_inv s' as' \<and> retire_inv s' as') \<and>
      (\<exists>s'. scanAndReclaim s = Some s' \<and> list_inv s' as \<and> retire_inv s' as))"
proof (intro conjI allI impI)
  show "list_inv MarkedList_new []" by (rule list_inv_new)
  show "retire_inv MarkedList_new []" by (rule retire_inv_new)
next
  fix s as c
  assume a: "list_inv s as \<and> retire_inv s as"
  then have i: "list_inv s as" and r: "retire_inv s as" by simp_all
  from exec_inv [OF i, of c] r
  show "\<exists>r s' as'. exec c s = Some (r, s') \<and> list_inv s' as' \<and> retire_inv s' as'"
    by blast
next
  fix s as c
  assume a: "list_inv s as \<and> retire_inv s as"
  then have i: "list_inv s as" and r: "retire_inv s as" by simp_all
  from i have "scanAndReclaim s = Some (reclaim_spec s)"
    by (intro scanAndReclaim_result) (simp_all add: list_inv_def)
  with list_inv_reclaim [OF i] retire_inv_reclaim [OF i r]
  show "\<exists>s'. scanAndReclaim s = Some s' \<and> list_inv s' as \<and> retire_inv s' as"
    by simp
qed

theorem retire_list_invariant_witness:
  "\<exists>rs s as. run (S1 @ [Remove 5 0, Remove 5 0]) MarkedList_new = Some (rs, s)
     \<and> retireList s = [1] \<and> list_inv s as \<and> retire_inv s as
     \<and> (\<exists>r s' as'. exec (Remove 2 0) s = Some (r, s') \<and> list_inv s' as' \<and> retire_inv s' as')
     \<and> (\<exists>s'. scanAndReclaim s = Some s' \<and> list_inv s' as \<and> retire_inv s' as)"
proof -
  let ?cs = "S1 @ [Remove 5 0, Remove 5 0]"
  from run_inv [OF list_inv_new, of ?cs 0] retire_inv_new obtain rs s as where
    r: "run ?cs MarkedList_new = Some (rs, s)" and i: "list_inv s as" "retire_inv s as"
    by blast
  have "map_option (\<lambda>x. retireList (snd x)) (run ?cs MarkedList_new) = Some [1]"
    unfolding S1_def by code_simp
  with r have rl: "retireList s = [1]" by simp
  from retire_list_invariant [THEN conjunct2, THEN conjunct2, rule_format, of s as "Remove 2 0"] i
  have "(\<exists>r s' as'. exec (Remove 2 0) s = Some (r, s') \<and> list_inv s' as' \<and> retire_inv s' as')
     \<and> (\<exists>s'. scanAndReclaim s = Some s' \<and> list_inv s' as \<and> retire_inv s' as)"
    by blast
  with r rl i show ?thesis by blast
qed

text \<open>
  Claim C7. On a retire list without repetitions whose nodes are all allocated,
  \<open>scanAndReclaim\<close> returns; the new retire list is the old one restricted, in the same
  order, to the nodes \<open>isNodeAccessed\<close> finds, that is the nodes some slot of the
  \<open>MAX_THREADS\<close> by \<open>ACCESSED_PTRS_PER_THREAD\<close> table holds; the other retired nodes are
  deleted from the heap and nothing else in the heap changes. When every slot of the
  table is null, the call leaves the retire list empty and all its nodes freed.
\<close>

theorem scanAndReclaim_frees_unhazarded:
  assumes "distinct (retireList s)" and "set (retireList s) \<subseteq> dom (heap s)"
  shows "\<exists>s'. scanAndReclaim s = Some s'
           \<and> retireList s' = filter (\<lambda>a. isNodeAccessed a s) (retireList s)
           \<and> (\<forall>a. heap s' a =
                  (if a \<in> set (retireList s) \<and> \<not> isNodeAccessed a s then None else heap s a))
           \<and> (\<forall>a. isNodeAccessed a s \<longleftrightarrow>
                  (\<exists>i j. 0 \<le> i \<and> i < MAX_THREADS \<and> 0 \<le> j \<and> j < ACCESSED_PTRS_PER_THREAD
                     \<and> accessedPointers s i j = Some a))
           \<and> ((\<forall>i j. 0 \<le> i \<and> i < MAX_THREADS \<and> 0 \<le> j \<and> j < ACCESSED_PTRS_PER_THREAD
                    \<longrightarrow> accessedPointers s i j = None)
                \<longrightarrow> retireList s' = [] \<and> (\<forall>a \<in> set (retireList s). heap s' a = None))"
proof -
  have r: "scanAndReclaim s = Some (reclaim_spec s)"
    by (rule scanAndReclaim_result [OF assms])
  have q: "retireList (reclaim_spec s) = [] \<and> (\<forall>a \<in> set (retireList s). heap (reclaim_spec s) a = None)"
    if "\<forall>i j. 0 \<le> i \<and> i < MAX_THREADS \<and> 0 \<le> j \<and> j < ACCESSED_PTRS_PER_THREAD
                    \<longrightarrow> accessedPointers s i j = None"
  proof -
    from that have "\<forall>a. \<not> isNodeAccessed a s"
      unfolding isNodeAccessed_iff by auto
    then show ?thesis by (simp add: reclaim_spec_heap)
  qed
  show ?thesis
    using r q isNodeAccessed_iff [of _ s]
    by (intro exI [of _ "reclaim_spec s"]) (simp add: reclaim_spec_heap)
qed

theorem scanAndReclaim_frees_unhazarded_witness:
  "distinct (retireList S5_state) \<and> set (retireList S5_state) \<subseteq> dom (heap S5_state) \<and>
   (\<exists>s'. scanAndReclaim S5_state = Some s' \<and> retireList s' = [1]
      \<and> heap s' 1 = heap S5_state 1 \<and> heap s' 2 = None) \<and>
   (\<exists>s'. scanAndReclaim (S5_state\<lparr>accessedPointers := (\<lambda>i j. None)\<rparr>) = Some s'
      \<and> retireList s' = [] \<and> heap s' 1 = None \<and> heap s' 2 = None)"
proof -
  let ?q = "S5_state\<lparr>accessedPointers := (\<lambda>i j. None)\<rparr>"
  have d: "distinct (retireList S5_state)" "set (retireList S5_state) \<subseteq> dom (heap S5_state)"
    by (simp_all add: S5_state_def)
  have d': "distinct (retireList ?q)" "set (retireList ?q) \<subseteq> dom (heap ?q)"
    by (simp_all add: S5_state_def)
  have a: "isNodeAccessed 1 S5_state" "\<not> isNodeAccessed 2 S5_state"
    by (simp_all add: isNodeAccessed_def S5_state_def MarkedList_new_def
        MAX_THREADS_def ACCESSED_PTRS_PER_THREAD_def upto.simps)
  have r: "retireList S5_state = [1, 2]" "retireList ?q = [1, 2]"
    by (simp_all add: S5_state_def)
  have n: "\<forall>i j. 0 \<le> i \<and> i < MAX_THREADS \<and> 0 \<le> j \<and> j < ACCESSED_PTRS_PER_THREAD
             \<longrightarrow> accessedPointers ?q i j = None"
    by simp
  from scanAndReclaim_frees_unhazarded [OF d] a r
  have 1: "\<exists>s'. scanAndReclaim S5_state = Some s' \<and> retireList s' = [1]
      \<and> heap s' 1 = heap S5_state 1 \<and> heap s' 2 = None"
    by auto
  from scanAndReclaim_frees_unhazarded [OF d'] n r
  have 2: "\<exists>s'. scanAndReclaim ?q = Some s' \<and> retireList s' = [] \<and> heap s' 1 = None
      \<and> heap s' 2 = None"
    by auto
  from d 1 2 show ?thesis by blast
qed

subsection \<open>The order of hazard stores and dereferences\<close>

lemma publishes_first_Nil: "publishes_first t S sen []"
  by (simp add: publishes_first_def)

lemma snoc_eq_decomp:
  assumes "es @ [x] = pre @ e # post"
  shows "(post = [] \<and> pre = es \<and> e = x) \<or> (\<exists>post'. post = post' @ [x] \<and> es = pre @ e # post')"
proof (cases post rule: rev_cases)
  case Nil
  with assms show ?thesis by simp
next
  case (snoc post' y)
  with assms have "es @ [x] = (pre @ e # post') @ [y]" by simp
  then have "es = pre @ e # post'" and "x = y" by simp_all
  with snoc show ?thesis by simp
qed

lemma publishes_first_snoc_publish:
  assumes "publishes_first t S sen es"
  shows "publishes_first t S sen (es @ [Publish t' i p])"
  unfolding publishes_first_def
proof (intro allI impI)
  fix pre e post a
  assume a: "es @ [Publish t' i p] = pre @ e # post \<and> (e = ReadValue a \<or> e = ReadNext a) \<and> a \<noteq> sen"
  then have "es @ [Publish t' i p] = pre @ e # post" by simp
  from snoc_eq_decomp [OF this] a obtain post' where "es = pre @ e # post'"
    by auto
  with assms a show "\<exists>i \<in> S. Publish t i (Some a) \<in> set pre"
    unfolding publishes_first_def by blast
qed

lemma publishes_first_snoc_read:
  assumes "publishes_first t S sen es"
    and "x = ReadValue c \<or> x = ReadNext c"
    and "c = sen \<or> (\<exists>i \<in> S. Publish t i (Some c) \<in> set es)"
  shows "publishes_first t S sen (es @ [x])"
  unfolding publishes_first_def
proof (intro allI impI)
  fix pre e post a
  assume a: "es @ [x] = pre @ e # post \<and> (e = ReadValue a \<or> e = ReadNext a) \<and> a \<noteq> sen"
  then have "es @ [x] = pre @ e # post" by simp
  from snoc_eq_decomp [OF this]
  show "\<exists>i \<in> S. Publish t i (Some a) \<in> set pre"
  proof
    assume "post = [] \<and> pre = es \<and> e = x"
    with a assms(2,3) show ?thesis by auto
  next
    assume "\<exists>post'. post = post' @ [x] \<and> es = pre @ e # post'"
    then obtain post' where "es = pre @ e # post'" by auto
    with assms(1) a show ?thesis
      unfolding publishes_first_def by blast
  qed
qed

lemma traverse_loop_events:
  assumes "chain (heap s) cur as"
    and "publishes_first t {0, 1} sen es"
    and "\<forall>c. cur = Some c \<longrightarrow> c = sen \<or> (\<exists>i \<in> {0, 1}. Publish t i (Some c) \<in> set es)"
    and "traverse_loop v t pred cur s es = Some (p', c', s1, es1)"
  shows "publishes_first t {0, 1} sen es1
         \<and> (\<exists>more. es1 = es @ more
               \<and> (\<forall>t' i p. Publish t' i p \<in> set more \<longrightarrow> t' = t \<and> (i = 0 \<or> i = 1)))"
  using assms
proof (induction as arbitrary: pred cur s es)
  case Nil
  then have "traverse_loop v t pred cur s es = Some (pred, cur, s, es)"
    by (subst traverse_loop.simps) simp
  with Nil.prems show ?case by simp
next
  case (Cons a as)
  from Cons.prems(1) obtain n where n: "cur = Some a" "heap s a = Some n"
      "chain (heap s) (nxt n) as"
    by (auto split: option.splits)
  from Cons.prems(3) n(1) have pa: "a = sen \<or> (\<exists>i \<in> {0, 1}. Publish t i (Some a) \<in> set es)"
    by simp
  show ?case
  proof (cases "val n < v")
    case True
    let ?s' = "storeAccessedPointer t (nxt n) 1 (storeAccessedPointer t (Some a) 0 s)"
    let ?new = "[ReadValue a, Publish t 0 (Some a), ReadNext a, Publish t 1 (nxt n), ReadNext a]"
    let ?e1 = "es @ [ReadValue a]"
    let ?e2 = "?e1 @ [Publish t 0 (Some a)]"
    let ?e3 = "?e2 @ [ReadNext a]"
    let ?e4 = "?e3 @ [Publish t 1 (nxt n)]"
    let ?e5 = "?e4 @ [ReadNext a]"
    have e5: "?e5 = es @ ?new" by simp
    have 1: "publishes_first t {0, 1} sen ?e1"
      using pa by (intro publishes_first_snoc_read [OF Cons.prems(2), where c = a]) auto
    have 2: "publishes_first t {0, 1} sen ?e2"
      using 1 by (rule publishes_first_snoc_publish)
    have 3: "publishes_first t {0, 1} sen ?e3"
      by (rule publishes_first_snoc_read [OF 2, where c = a]) auto
    have 4: "publishes_first t {0, 1} sen ?e4"
      using 3 by (rule publishes_first_snoc_publish)
    have 5: "publishes_first t {0, 1} sen ?e5"
      by (rule publishes_first_snoc_read [OF 4, where c = a]) auto
    have c': "chain (heap ?s') (nxt n) as" using n(3) by simp
    have nx: "\<forall>c. nxt n = Some c \<longrightarrow> c = sen \<or> (\<exists>i \<in> {0, 1}. Publish t i (Some c) \<in> set ?e5)"
      by auto
    have "traverse_loop v t pred cur s es = traverse_loop v t a (nxt n) ?s' (es @ ?new)"
      by (subst traverse_loop.simps) (simp add: n True)
    with Cons.prems(4) have r: "traverse_loop v t a (nxt n) ?s' ?e5 = Some (p', c', s1, es1)"
      by (simp only: e5)
    from Cons.IH [OF c' 5 nx r] obtain more where
      pf: "publishes_first t {0, 1} sen es1" and m: "es1 = ?e5 @ more"
      and rows: "\<forall>t' i p. Publish t' i p \<in> set more \<longrightarrow> t' = t \<and> (i = 0 \<or> i = 1)"
      by blast
    have "es1 = es @ (?new @ more)" using m by simp
    moreover have "\<forall>t' i p. Publish t' i p \<in> set (?new @ more) \<longrightarrow> t' = t \<and> (i = 0 \<or> i = 1)"
      using rows by auto
    ultimately show ?thesis using pf by blast
  next
    case False
    have "traverse_loop v t pred cur s es = Some (pred, cur, s, es @ [ReadValue a])"
      by (subst traverse_loop.simps) (simp add: n False)
    with Cons.prems(4) have e: "es1 = es @ [ReadValue a]" by simp
    have "publishes_first t {0, 1} sen (es @ [ReadValue a])"
      using pa by (intro publishes_first_snoc_read [OF Cons.prems(2), where c = a]) auto
    with e show ?thesis by simp
  qed
qed

lemma contains_loop_events:
  assumes "chain (heap s) cur as"
    and "publishes_first t {0} sen es"
    and "\<forall>c. cur = Some c \<longrightarrow> c = sen \<or> Publish t 0 (Some c) \<in> set es"
    and "contains_loop v t cur s es = Some (c', s1, es1)"
  shows "publishes_first t {0} sen es1
         \<and> (\<exists>more. es1 = es @ more
               \<and> (\<forall>t' i p. Publish t' i p \<in> set more \<longrightarrow> t' = t \<and> i = 0))"
  using assms
proof (induction as arbitrary: cur s es)
  case Nil
  then have "contains_loop v t cur s es = Some (cur, s, es)"
    by (subst contains_loop.simps) simp
  with Nil.prems show ?case by simp
next
  case (Cons a as)
  from Cons.prems(1) obtain n where n: "cur = Some a" "heap s a = Some n"
      "chain (heap s) (nxt n) as"
    by (auto split: option.splits)
  from Cons.prems(3) n(1) have pa: "a = sen \<or> (\<exists>i \<in> {0}. Publish t i (Some a) \<in> set es)"
    by simp
  show ?case
  proof (cases "val n < v")
    case True
    let ?s' = "storeAccessedPointer t (nxt n) 0 s"
    let ?new = "[ReadValue a, ReadNext a, Publish t 0 (nxt n)]"
    let ?e1 = "es @ [ReadValue a]"
    let ?e2 = "?e1 @ [ReadNext a]"
    let ?e3 = "?e2 @ [Publish t 0 (nxt n)]"
    have e3: "?e3 = es @ ?new" by simp
    have 1: "publishes_first t {0} sen ?e1"
      using pa by (intro publishes_first_snoc_read [OF Cons.prems(2), where c = a]) auto
    have 2: "publishes_first t {0} sen ?e2"
      using pa by (intro publishes_first_snoc_read [OF 1, where c = a]) auto
    have 3: "publishes_first t {0} sen ?e3"
      using 2 by (rule publishes_first_snoc_publish)
    have c': "chain (heap ?s') (nxt n) as" using n(3) by simp
    have nx: "\<forall>c. nxt n = Some c \<longrightarrow> c = sen \<or> Publish t 0 (Some c) \<in> set ?e3"
      by auto
    have "contains_loop v t cur s es = contains_loop v t (nxt n) ?s' (es @ ?new)"
      by (subst contains_loop.simps) (simp add: n True)
    with Cons.prems(4) have r: "contains_loop v t (nxt n) ?s' ?e3 = Some (c', s1, es1)"
      by (simp only: e3)
    from Cons.IH [OF c' 3 nx r] obtain more where
      pf: "publishes_first t {0} sen es1" and m: "es1 = ?e3 @ more"
      and rows: "\<forall>t' i p. Publish t' i p \<in> set more \<longrightarrow> t' = t \<and> i = 0"
      by blast
    have "es1 = es @ (?new @ more)" using m by simp
    moreover have "\<forall>t' i p. Publish t' i p \<in> set (?new @ more) \<longrightarrow> t' = t \<and> i = 0"
      using rows by auto
    ultimately show ?thesis using pf by blast
  next
    case False
    have "contains_loop v t cur s es = Some (cur, s, es @ [ReadValue a])"
      by (subst contains_loop.simps) (simp add: n False)
    with Cons.prems(4) have e: "es1 = es @ [ReadValue a]" by simp
    have "publishes_first t {0} sen (es @ [ReadValue a])"
      using pa by (intro publishes_first_snoc_read [OF Cons.prems(2), where c = a]) auto
    with e show ?thesis by simp
  qed
qed

lemma insert_traverse_events:
  assumes "linked s as"
  shows "\<exists>pred cur s1 es. insert_traverse v t s = Some (pred, cur, s1, es)
           \<and> publishes_first t {0, 1} (head s) es
           \<and> (\<exists>x. Publish t 0 x \<in> set es)
           \<and> (\<forall>t' i p. Publish t' i p \<in> set es \<longrightarrow> t' = t \<and> (i = 0 \<or> i = 1))"
proof -
  from assms obtain h where h: "heap s (head s) = Some h" "chain (heap s) (nxt h) as"
    by (auto simp: linked_def split: option.splits)
  let ?s0 = "storeAccessedPointer t (nxt h) 0 s"
  let ?es0 = "[ReadNext (head s), Publish t 0 (nxt h), ReadNext (head s)]"
  have c: "chain (heap ?s0) (nxt h) as" using h(2) by simp
  have 1: "publishes_first t {0, 1} (head s) ([] @ [ReadNext (head s)])"
    by (rule publishes_first_snoc_read [OF publishes_first_Nil, where c = "head s"]) simp_all
  have 2: "publishes_first t {0, 1} (head s) (([] @ [ReadNext (head s)]) @ [Publish t 0 (nxt h)])"
    using 1 by (rule publishes_first_snoc_publish)
  have "publishes_first t {0, 1} (head s)
          ((([] @ [ReadNext (head s)]) @ [Publish t 0 (nxt h)]) @ [ReadNext (head s)])"
    by (rule publishes_first_snoc_read [OF 2, where c = "head s"]) simp_all
  then have pf: "publishes_first t {0, 1} (head s) ?es0" by simp
  have nx: "\<forall>c. nxt h = Some c \<longrightarrow> c = head s \<or> (\<exists>i \<in> {0, 1}. Publish t i (Some c) \<in> set ?es0)"
    by auto
  from traverse_loop_chain [OF c, of v t "head s" ?es0] obtain p' c' s1 es1 where
    r: "traverse_loop v t (head s) (nxt h) ?s0 ?es0 = Some (p', c', s1, es1)"
    by blast
  from traverse_loop_events [OF c pf nx r] obtain more where
    pf1: "publishes_first t {0, 1} (head s) es1" and m: "es1 = ?es0 @ more"
    and rows: "\<forall>t' i p. Publish t' i p \<in> set more \<longrightarrow> t' = t \<and> (i = 0 \<or> i = 1)"
    by blast
  have "insert_traverse v t s = Some (p', c', s1, es1)"
    using h(1) r by (simp add: insert_traverse_def)
  moreover have "Publish t 0 (nxt h) \<in> set es1" using m by simp
  moreover have "\<forall>t' i p. Publish t' i p \<in> set es1 \<longrightarrow> t' = t \<and> (i = 0 \<or> i = 1)"
    using m rows by auto
  ultimately show ?thesis using pf1 by blast
qed

lemma remove_traverse_events:
  assumes "linked s as"
  shows "\<exists>pred cur s1 es. remove_traverse v t s = Some (pred, cur, s1, es)
           \<and> publishes_first t {0, 1} (head s) es
           \<and> (\<exists>x. Publish t 0 x \<in> set es)
           \<and> (\<forall>t' i p. Publish t' i p \<in> set es \<longrightarrow> t' = t \<and> (i = 0 \<or> i = 1))"
proof -
  from assms obtain h where h: "heap s (head s) = Some h" "chain (heap s) (nxt h) as"
    by (auto simp: linked_def split: option.splits)
  let ?s0 = "storeAccessedPointer t (nxt h) 0 s"
  let ?es0 = "[ReadNext (head s), ReadNext (head s), Publish t 0 (nxt h)]"
  have c: "chain (heap ?s0) (nxt h) as" using h(2) by simp
  have 1: "publishes_first t {0, 1} (head s) ([] @ [ReadNext (head s)])"
    by (rule publishes_first_snoc_read [OF publishes_first_Nil, where c = "head s"]) simp_all
  have 2: "publishes_first t {0, 1} (head s) (([] @ [ReadNext (head s)]) @ [ReadNext (head s)])"
    by (rule publishes_first_snoc_read [OF 1, where c = "head s"]) simp_all
  have "publishes_first t {0, 1} (head s)
          ((([] @ [ReadNext (head s)]) @ [ReadNext (head s)]) @ [Publish t 0 (nxt h)])"
    using 2 by (rule publishes_first_snoc_publish)
  then have pf: "publishes_first t {0, 1} (head s) ?es0" by simp
  have nx: "\<forall>c. nxt h = Some c \<longrightarrow> c = head s \<or> (\<exists>i \<in> {0, 1}. Publish t i (Some c) \<in> set ?es0)"
    by auto
  from traverse_loop_chain [OF c, of v t "head s" ?es0] obtain p' c' s1 es1 where
    r: "traverse_loop v t (head s) (nxt h) ?s0 ?es0 = Some (p', c', s1, es1)"
    by blast
  from traverse_loop_events [OF c pf nx r] obtain more where
    pf1: "publishes_first t {0, 1} (head s) es1" and m: "es1 = ?es0 @ more"
    and rows: "\<forall>t' i p. Publish t' i p \<in> set more \<longrightarrow> t' = t \<and> (i = 0 \<or> i = 1)"
    by blast
  have "remove_traverse v t s = Some (p', c', s1, es1)"
    using h(1) r by (simp add: remove_traverse_def)
  moreover have "Publish t 0 (nxt h) \<in> set es1" using m by simp
  moreover have "\<forall>t' i p. Publish t' i p \<in> set es1 \<longrightarrow> t' = t \<and> (i = 0 \<or> i = 1)"
    using m rows by auto
  ultimately show ?thesis using pf1 by blast
qed

lemma contains_traverse_events:
  assumes "linked s as"
  shows "\<exists>cur s1 es. contains_traverse v t s = Some (cur, s1, es)
           \<and> publishes_first t {0} (head s) es
           \<and> (\<exists>x. Publish t 0 x \<in> set es)
           \<and> (\<forall>t' i p. Publish t' i p \<in> set es \<longrightarrow> t' = t \<and> i = 0)"
proof -
  from assms obtain h where h: "heap s (head s) = Some h" "chain (heap s) (nxt h) as"
    by (auto simp: linked_def split: option.splits)
  let ?s0 = "storeAccessedPointer t (nxt h) 0 s"
  let ?es0 = "[ReadNext (head s), Publish t 0 (nxt h)]"
  have c: "chain (heap ?s0) (nxt h) as" using h(2) by simp
  have 1: "publishes_first t {0} (head s) ([] @ [ReadNext (head s)])"
    by (rule publishes_first_snoc_read [OF publishes_first_Nil, where c = "head s"]) simp_all
  have "publishes_first t {0} (head s) (([] @ [ReadNext (head s)]) @ [Publish t 0 (nxt h)])"
    using 1 by (rule publishes_first_snoc_publish)
  then have pf: "publishes_first t {0} (head s) ?es0" by simp
  have nx: "\<forall>c. nxt h = Some c \<longrightarrow> c = head s \<or> Publish t 0 (Some c) \<in> set ?es0"
    by auto
  from contains_loop_chain [OF c, of v t ?es0] obtain c' s1 es1 where
    r: "contains_loop v t (nxt h) ?s0 ?es0 = Some (c', s1, es1)"
    by blast
  from contains_loop_events [OF c pf nx r] obtain more where
    pf1: "publishes_first t {0} (head s) es1" and m: "es1 = ?es0 @ more"
    and rows: "\<forall>t' i p. Publish t' i p \<in> set more \<longrightarrow> t' = t \<and> i = 0"
    by blast
  have "contains_traverse v t s = Some (c', s1, es1)"
    using h(1) r by (simp add: contains_traverse_def)
  moreover have "Publish t 0 (nxt h) \<in> set es1" using m by simp
  moreover have "\<forall>t' i p. Publish t' i p \<in> set es1 \<longrightarrow> t' = t \<and> i = 0"
    using m rows by auto
  ultimately show ?thesis using pf1 by blast
qed

text \<open>
  A call that runs with no other worker's call in between: whenever nodes are linked
  after the sentinel, the unlocked traversals of \<open>insert\<close>, of \<open>remove\<close> and of
  \<open>contains\<close> return, and in the order in which their statements run every read of
  \<open>value\<close> or \<open>next\<close> through a node other than the sentinel comes after a store of that
  node into slot 0 or 1 of the calling worker's row of the hazard table; in \<open>contains\<close>
  the store is into slot 0.
\<close>

lemma traversals_publish_first:
  assumes "linked s as"
  shows "(\<exists>pred cur s1 es. insert_traverse v t s = Some (pred, cur, s1, es)
            \<and> publishes_first t {0, 1} (head s) es)
       \<and> (\<exists>pred cur s1 es. remove_traverse v t s = Some (pred, cur, s1, es)
            \<and> publishes_first t {0, 1} (head s) es)
       \<and> (\<exists>cur s1 es. contains_traverse v t s = Some (cur, s1, es)
            \<and> publishes_first t {0} (head s) es)"
  using insert_traverse_events [OF assms, of v t] remove_traverse_events [OF assms, of v t]
    contains_traverse_events [OF assms, of v t]
  by blast

subsection \<open>The counters\<close>

lemma sint_add_32:
  fixes a b :: "32 word"
  assumes "- (2 ^ 31) \<le> sint a + sint b" and "sint a + sint b < 2 ^ 31"
  shows "sint (a + b) = sint a + sint b"
  using assms by (simp add: sint_word_ariths signed_take_bit_int_eq_self)

lemma sint_sub_32:
  fixes a b :: "32 word"
  assumes "- (2 ^ 31) \<le> sint a - sint b" and "sint a - sint b < 2 ^ 31"
  shows "sint (a - b) = sint a - sint b"
  using assms by (simp add: sint_word_ariths signed_take_bit_int_eq_self)

lemma sint_succ_32:
  fixes a :: "32 word"
  assumes "0 \<le> sint a" and "sint a < 2 ^ 31 - 1"
  shows "sint (a + 1) = sint a + 1"
  using sint_add_32 [of a 1] assms by simp

lemma scan_loop_counters:
  "scan_loop rs s new = Some (s1, new1) \<Longrightarrow>
   operationCounter s1 = operationCounter s \<and> length' s1 = length' s"
  by (induction rs s new rule: scan_loop.induct) (auto split: if_splits option.splits)

lemma scanAndReclaim_counters:
  "scanAndReclaim s = Some s1 \<Longrightarrow>
   operationCounter s1 = operationCounter s \<and> length' s1 = length' s"
  by (auto simp: scanAndReclaim_def split: option.splits dest: scan_loop_counters)

lemma count_operation_nonneg:
  assumes "0 \<le> sint (operationCounter s)" and "sint (operationCounter s) < 2 ^ 31 - 1"
    and "0 \<le> sint (length' s)"
    and "count_operation s = Some s'"
  shows "0 \<le> sint (operationCounter s')"
proof -
  have s1: "sint (operationCounter s + 1) = sint (operationCounter s) + 1"
    by (rule sint_succ_32 [OF assms(1,2)])
  show ?thesis
  proof (cases "reclaim_due s")
    case True
    then have le: "sint (length' s) \<le> sint (operationCounter s) + 1"
      by (simp add: reclaim_due_def word_sle_eq s1)
    from assms(4) True obtain s2 where
      s2: "scanAndReclaim (s\<lparr>operationCounter := operationCounter s + 1\<rparr>) = Some s2"
      and s': "s' = s2\<lparr>operationCounter := operationCounter s2 - length' s2\<rparr>"
      by (auto simp: count_operation_def Let_def split: option.splits)
    from scanAndReclaim_counters [OF s2]
    have f: "operationCounter s2 = operationCounter s + 1" "length' s2 = length' s" by simp_all
    have "sint (operationCounter s + 1 - length' s)
            = sint (operationCounter s + 1) - sint (length' s)"
      using assms(1,2,3) le s1 by (intro sint_sub_32) simp_all
    with le s1 show ?thesis by (simp add: s' f)
  next
    case False
    with assms(4) have "s' = s\<lparr>operationCounter := operationCounter s + 1\<rparr>"
      by (simp add: count_operation_def Let_def)
    with s1 assms(1) show ?thesis by simp
  qed
qed

lemma reset_no_hazards:
  "accessedPointers s = (\<lambda>i j. None) \<Longrightarrow>
   accessedPointers (resetAccessedPointer t s) = (\<lambda>i j. None)"
  by (simp add: reset_eq fun_eq_iff)

lemma insert_link_spec:
  assumes inv: "list_inv s as"
  shows "\<exists>s1 as1. insert_link v t s = Some s1 \<and> list_inv s1 as1
           \<and> length as1 = Suc (length as)
           \<and> length' s1 = length' s + 1
           \<and> operationCounter s1 = operationCounter s
           \<and> retireList s1 = retireList s
           \<and> accessedPointers s1 = accessedPointers (resetAccessedPointer t s)"
proof -
  let ?xs = "takeWhile (\<lambda>a. key (heap s) a < v) as"
  let ?ys = "dropWhile (\<lambda>a. key (heap s) a < v) as"
  from insert_link_result [OF inv, of v t] obtain p s1 where
    p: "heap s (last (head s # ?xs)) = Some p"
    and s1: "s1 = (resetAccessedPointer t s)
                   \<lparr>heap := (heap s)
                      (brk s := Some \<lparr>val = v, nxt = first_of ?ys, removed = False\<rparr>,
                       last (head s # ?xs) := Some (p\<lparr>nxt := Some (brk s)\<rparr>)),
                    brk := Suc (brk s),
                    length' := length' s + 1\<rparr>"
    and il: "insert_link v t s = Some s1"
    by blast
  have inv': "list_inv s (?xs @ ?ys)" using inv by simp
  have so: "sorted (map (key (heap s)) as)" using inv by (simp add: list_inv_def)
  have lt: "\<forall>a \<in> set ?xs. key (heap s) a < v" by (auto dest: set_takeWhileD)
  have ge: "\<forall>a \<in> set ?ys. v \<le> key (heap s) a" by (rule dropWhile_sorted_ge [OF so])
  have h1: "heap s1 = (heap s)(brk s := Some \<lparr>val = v, nxt = first_of ?ys, removed = False\<rparr>,
                               last (head s # ?xs) := Some (p\<lparr>nxt := Some (brk s)\<rparr>))"
    and hd1: "head s1 = head s" and r1: "retireList s1 = retireList s"
    and b1: "brk s1 = Suc (brk s)" and l1: "length' s1 = length' s + 1"
    and o1: "operationCounter s1 = operationCounter s"
    and a1: "accessedPointers s1 = accessedPointers (resetAccessedPointer t s)"
    unfolding s1 by simp_all
  note lp = link_preserves [OF inv' p lt ge h1 hd1 r1 b1]
  have "length (?xs @ brk s # ?ys) = Suc (length as)"
    by (metis length_Cons length_append add_Suc_right takeWhile_dropWhile_id)
  with il lp(1) l1 o1 r1 a1 show ?thesis by blast
qed

lemma remove_unlink_spec:
  fixes s :: MarkedList and as :: "addr list" and v :: int
  assumes inv: "list_inv s as"
  shows "\<exists>found s1 as1. remove_unlink v t s = Some (found, s1) \<and> list_inv s1 as1
           \<and> operationCounter s1 = operationCounter s
           \<and> accessedPointers s1 = accessedPointers (resetAccessedPointer t s)
           \<and> (found \<longrightarrow> Suc (length as1) = length as \<and> length' s1 = length' s - 1
                 \<and> length (retireList s1) = Suc (length (retireList s)))
           \<and> (\<not> found \<longrightarrow> as1 = as \<and> length' s1 = length' s \<and> retireList s1 = retireList s)"
proof -
  define xs where "xs = takeWhile (\<lambda>a. key (heap s) a < v) as"
  define ys where "ys = dropWhile (\<lambda>a. key (heap s) a < v) as"
  show ?thesis
  proof (cases "case ys of [] \<Rightarrow> True | c # _ \<Rightarrow> key (heap s) c \<noteq> v")
    case True
    from remove_unlink_absent [OF inv True [unfolded ys_def], of t]
    have "remove_unlink v t s = Some (False, resetAccessedPointer t s)" .
    moreover have "list_inv (resetAccessedPointer t s) as"
      using inv by (simp add: reset_eq)
    ultimately show ?thesis
      by (intro exI [of _ False] exI [of _ "resetAccessedPointer t s"] exI [of _ as]) simp
  next
    case False
    then obtain c ys' where ys: "ys = c # ys'" and kc: "key (heap s) c = v"
      by (cases ys) simp_all
    have dw: "dropWhile (\<lambda>a. key (heap s) a < v) as = c # ys'" using ys by (simp add: ys_def)
    from remove_unlink_present [OF inv dw kc, of t] obtain p n s1 where
      p: "heap s (last (head s # xs)) = Some p" and n: "heap s c = Some n"
      and s1: "s1 = (resetAccessedPointer t s)
                   \<lparr>heap := (heap s)
                      (c := Some (n\<lparr>removed := True\<rparr>),
                       last (head s # xs) := Some (p\<lparr>nxt := nxt n\<rparr>)),
                    retireList := retireList s @ [c],
                    length' := length' s - 1\<rparr>"
      and ru: "remove_unlink v t s = Some (True, s1)"
      unfolding xs_def by blast
    have split: "as = xs @ c # ys'"
      using ys by (metis takeWhile_dropWhile_id xs_def ys_def)
    have inv': "list_inv s (xs @ c # ys')" using inv split by simp
    have h1: "heap s1 = (heap s)(c := Some (n\<lparr>removed := True\<rparr>),
                               last (head s # xs) := Some (p\<lparr>nxt := nxt n\<rparr>))"
      and hd1: "head s1 = head s" and r1: "retireList s1 = retireList s @ [c]"
      and b1: "brk s1 = brk s" and l1: "length' s1 = length' s - 1"
      and o1: "operationCounter s1 = operationCounter s"
      and a1: "accessedPointers s1 = accessedPointers (resetAccessedPointer t s)"
      unfolding s1 by simp_all
    note up = unlink_preserves [OF inv' p n h1 hd1 r1 b1]
    have "Suc (length (xs @ ys')) = length as" using split by simp
    with ru up(1) l1 o1 r1 a1 show ?thesis
      by (intro exI [of _ True] exI [of _ s1] exI [of _ "xs @ ys'"]) simp
  qed
qed

lemma count_operation_counters:
  assumes inv: "list_inv s as"
    and len: "length' s = of_nat (length as)" "length as \<le> Suc n"
    and opc: "0 \<le> sint (operationCounter s)" "sint (operationCounter s) \<le> int n"
    and n: "Suc n < 2 ^ 31"
    and haz: "accessedPointers s = (\<lambda>i j. None)"
    and ret: "int (length (retireList s)) \<le> sint (operationCounter s) + 1"
  shows "\<exists>s'. count_operation s = Some s' \<and> counters_inv (Suc n) s' as"
proof -
  from inv have d: "distinct (retireList s)" and sub: "set (retireList s) \<subseteq> dom (heap s)"
    by (simp_all add: list_inv_def)
  have n': "int n < 2 ^ 31 - 1" using n by simp
  have o1: "sint (operationCounter s + 1) = sint (operationCounter s) + 1"
    using opc n' by (intro sint_succ_32) simp_all
  have "length as < 2 ^ 31" using len(2) n by simp
  then have sl: "sint (length' s) = int (length as)"
    unfolding len(1) by (rule sint_of_nat_32)
  have due: "reclaim_due s \<longleftrightarrow> int (length as) \<le> sint (operationCounter s) + 1"
    by (simp add: reclaim_due_def word_sle_eq o1 sl)
  note co = count_operation_result [OF d sub]
  show ?thesis
  proof (cases "reclaim_due s")
    case True
    let ?s' = "(reclaim_spec s)\<lparr>operationCounter := operationCounter s + 1 - length' s\<rparr>"
    from True due have le: "int (length as) \<le> sint (operationCounter s) + 1" by simp
    have "sint (operationCounter s + 1 - length' s)
            = sint (operationCounter s + 1) - sint (length' s)"
      using opc n' le o1 sl by (intro sint_sub_32) simp_all
    then have o': "sint (operationCounter ?s') = sint (operationCounter s) + 1 - int (length as)"
      using o1 sl by simp
    have "\<forall>a. \<not> isNodeAccessed a s"
      unfolding isNodeAccessed_iff using haz by simp
    then have r': "retireList ?s' = []" by simp
    have "list_inv ?s' as" using list_inv_reclaim [OF inv] by simp
    then have "counters_inv (Suc n) ?s' as"
      unfolding counters_inv_def using len haz o' r' le opc by simp
    with co True show ?thesis by simp
  next
    case False
    let ?s' = "s\<lparr>operationCounter := operationCounter s + 1\<rparr>"
    from False due have lt: "sint (operationCounter s) + 1 < int (length as)" by simp
    have "list_inv ?s' as" using inv by simp
    then have "counters_inv (Suc n) ?s' as"
      unfolding counters_inv_def using len haz o1 ret lt opc by simp
    with co False show ?thesis by simp
  qed
qed

lemma counters_inv_mono: "counters_inv n s as \<Longrightarrow> n \<le> m \<Longrightarrow> counters_inv m s as"
  by (auto simp: counters_inv_def)

lemma exec_counters:
  assumes ci: "counters_inv n s as" and n: "Suc n < 2 ^ 31"
  shows "\<exists>r s' as'. exec c s = Some (r, s') \<and> counters_inv (Suc n) s' as'"
proof -
  from ci have inv: "list_inv s as" and len: "length' s = of_nat (length as)" "length as \<le> n"
    and opc: "0 \<le> sint (operationCounter s)" "sint (operationCounter s) \<le> int n"
    and haz: "accessedPointers s = (\<lambda>i j. None)"
    and ret: "int (length (retireList s)) \<le> sint (operationCounter s)"
    by (simp_all add: counters_inv_def)
  have quiet: "counters_inv (Suc n) (resetAccessedPointer t s) as" for t
    using counters_inv_mono [OF ci, of "Suc n"] reset_no_hazards [OF haz, of t]
    by (simp add: counters_inv_def reset_eq)
  show ?thesis
  proof (cases c)
    case (Insert v t)
    from insert_link_spec [OF inv, of v t] obtain s1 as1 where
      il: "insert_link v t s = Some s1" and i1: "list_inv s1 as1"
      and l1: "length as1 = Suc (length as)" "length' s1 = length' s + 1"
      and o1: "operationCounter s1 = operationCounter s"
      and r1: "retireList s1 = retireList s"
      and a1: "accessedPointers s1 = accessedPointers (resetAccessedPointer t s)"
      by blast
    have "length' s1 = of_nat (length as1)" using l1 len by simp
    moreover have "length as1 \<le> Suc n" using l1 len by simp
    moreover have "accessedPointers s1 = (\<lambda>i j. None)"
      using a1 reset_no_hazards [OF haz] by simp
    moreover have "int (length (retireList s1)) \<le> sint (operationCounter s1) + 1"
      using ret r1 o1 by simp
    ultimately obtain s' where "count_operation s1 = Some s'" "counters_inv (Suc n) s' as1"
      using count_operation_counters [OF i1 _ _ _ _ n, of ] opc o1 by auto
    then show ?thesis using Insert il by (auto simp: insert'_def)
  next
    case (Remove v t)
    from remove_unlink_spec [OF inv, of v t] obtain found s1 as1 where
      ru: "remove_unlink v t s = Some (found, s1)" and i1: "list_inv s1 as1"
      and o1: "operationCounter s1 = operationCounter s"
      and a1: "accessedPointers s1 = accessedPointers (resetAccessedPointer t s)"
      and f: "found \<longrightarrow> Suc (length as1) = length as \<and> length' s1 = length' s - 1
                 \<and> length (retireList s1) = Suc (length (retireList s))"
      and nf: "\<not> found \<longrightarrow> as1 = as \<and> length' s1 = length' s \<and> retireList s1 = retireList s"
      by blast
    have hz: "accessedPointers s1 = (\<lambda>i j. None)"
      using a1 reset_no_hazards [OF haz] by simp
    show ?thesis
    proof (cases found)
      case True
      with f have l1: "Suc (length as1) = length as" "length' s1 = length' s - 1"
        and r1: "length (retireList s1) = Suc (length (retireList s))"
        by simp_all
      have "0 < length as" using l1(1) by linarith
      from of_nat_pred_word [OF this] l1 len have "length' s1 = of_nat (length as1)"
        by (metis diff_Suc_1)
      moreover have "length as1 \<le> Suc n" using l1 len by simp
      moreover have "int (length (retireList s1)) \<le> sint (operationCounter s1) + 1"
        using ret r1 o1 by simp
      ultimately obtain s' where "count_operation s1 = Some s'" "counters_inv (Suc n) s' as1"
        using count_operation_counters [OF i1 _ _ _ _ n hz] opc o1 by auto
      then show ?thesis using Remove ru True by (auto simp: remove'_def)
    next
      case False
      with nf have e: "as1 = as" "length' s1 = length' s" "retireList s1 = retireList s"
        by simp_all
      have "counters_inv (Suc n) s1 as"
        using counters_inv_mono [OF ci, of "Suc n"] i1 e o1 hz
        by (simp add: counters_inv_def)
      then show ?thesis using Remove ru False by (auto simp: remove'_def)
    qed
  next
    case (Contains v t)
    from inv have "linked s as" by (simp add: list_inv_def)
    from contains_spec [OF this, of v t] quiet [of t] Contains show ?thesis by auto
  qed
qed

lemma run_counters:
  assumes "counters_inv n s as" and "n + length cs < 2 ^ 31"
  shows "\<exists>rs s' as'. run cs s = Some (rs, s') \<and> counters_inv (n + length cs) s' as'"
  using assms
proof (induction cs arbitrary: n s as)
  case Nil
  then show ?case by auto
next
  case (Cons c cs)
  from Cons.prems(2) have n: "Suc n < 2 ^ 31" and m: "Suc n + length cs < 2 ^ 31" by simp_all
  from exec_counters [OF Cons.prems(1) n, of c] obtain r s1 as1 where
    e: "exec c s = Some (r, s1)" and c1: "counters_inv (Suc n) s1 as1"
    by blast
  from Cons.IH [OF c1 m] obtain rs s' as' where
    "run cs s1 = Some (rs, s')" "counters_inv (Suc n + length cs) s' as'"
    by blast
  with e show ?case by auto
qed

lemma counters_inv_new: "counters_inv 0 MarkedList_new []"
  using list_inv_new by (simp add: counters_inv_def MarkedList_new_def)

subsection \<open>The operations on the array and on the table of all indices\<close>

lemma in_table_slots: "0 \<le> t \<Longrightarrow> t < MAX_THREADS \<Longrightarrow> in_table t 0 \<and> in_table t 1"
  by (simp add: in_table_def ACCESSED_PTRS_PER_THREAD_def)

lemma store_array_in:
  "in_table t i \<Longrightarrow> storeAccessedPointer_array t p i s = Inr (storeAccessedPointer t p i s)"
  by (simp add: storeAccessedPointer_array_def)

lemma store_array_out:
  "\<not> (0 \<le> t \<and> t < MAX_THREADS) \<Longrightarrow> storeAccessedPointer_array t p i s = Inl (OutOfBounds t i)"
  by (auto simp: storeAccessedPointer_array_def in_table_def)

lemma reset_array_in:
  assumes "0 \<le> t" and "t < MAX_THREADS"
  shows "resetAccessedPointer_array t s = Inr (resetAccessedPointer t s)"
  using in_table_slots [OF assms]
  by (simp add: resetAccessedPointer_array_def resetAccessedPointer_def slots_upto
      store_array_in)

lemma traverse_loop_to_array:
  assumes "traverse_loop v t p c s es = Some r" and "0 \<le> t" and "t < MAX_THREADS"
  shows "traverse_loop_array v t p c s = Some (Inr (fst r, fst (snd r), fst (snd (snd r))))"
  using assms
proof (induction rule: traverse_loop.raw_induct [rotated 1, consumes 1, case_names step])
  case (step traverse_loop v t p c s es r)
  from in_table_slots [OF step(3,4)] have i: "in_table t 0" "in_table t 1" by simp_all
  from step(2) show ?case
    apply (subst traverse_loop_array.simps)
    apply (auto simp: store_array_in i split: option.splits if_splits intro: step(1) [OF _ step(3,4)])
    done
qed

lemma traverse_loop_of_array:
  assumes "traverse_loop_array v t p c s = Some y" and "0 \<le> t" and "t < MAX_THREADS"
  shows "\<exists>p' c' s'. y = Inr (p', c', s')
           \<and> (\<exists>es'. traverse_loop v t p c s es = Some (p', c', s', es'))"
  using assms
proof (induction arbitrary: es rule: traverse_loop_array.raw_induct [rotated 1, consumes 1, case_names step])
  case (step traverse_loop_array v t p c s y)
  from in_table_slots [OF step(3,4)] have i: "in_table t 0" "in_table t 1" by simp_all
  from step(2) show ?case
    apply (subst traverse_loop.simps)
    apply (auto simp: store_array_in i split: option.splits if_splits intro: step(1) [OF _ step(3,4)])
    done
qed

lemma traverse_loop_array_eq:
  assumes "0 \<le> t" and "t < MAX_THREADS"
  shows "traverse_loop_array v t p c s
           = map_option (\<lambda>(p', c', s', es'). Inr (p', c', s')) (traverse_loop v t p c s es)"
proof (cases "traverse_loop v t p c s es")
  case None
  with traverse_loop_of_array [OF _ assms, of v p c s _ es] show ?thesis
    by (cases "traverse_loop_array v t p c s") auto
next
  case (Some r)
  from traverse_loop_to_array [OF Some assms] Some show ?thesis
    by (simp add: case_prod_beta)
qed

lemma contains_loop_to_array:
  assumes "contains_loop v t c s es = Some r" and "0 \<le> t" and "t < MAX_THREADS"
  shows "contains_loop_array v t c s = Some (Inr (fst r, fst (snd r)))"
  using assms
proof (induction rule: contains_loop.raw_induct [rotated 1, consumes 1, case_names step])
  case (step contains_loop v t c s es r)
  from in_table_slots [OF step(3,4)] have i: "in_table t 0" by simp
  from step(2) show ?case
    apply (subst contains_loop_array.simps)
    apply (auto simp: store_array_in i split: option.splits if_splits intro: step(1) [OF _ step(3,4)])
    done
qed

lemma contains_loop_of_array:
  assumes "contains_loop_array v t c s = Some y" and "0 \<le> t" and "t < MAX_THREADS"
  shows "\<exists>c' s'. y = Inr (c', s') \<and> (\<exists>es'. contains_loop v t c s es = Some (c', s', es'))"
  using assms
proof (induction arbitrary: es rule: contains_loop_array.raw_induct [rotated 1, consumes 1, case_names step])
  case (step contains_loop_array v t c s y)
  from in_table_slots [OF step(3,4)] have i: "in_table t 0" by simp
  from step(2) show ?case
    apply (subst contains_loop.simps)
    apply (auto simp: store_array_in i split: option.splits if_splits intro: step(1) [OF _ step(3,4)])
    done
qed

lemma contains_loop_array_eq:
  assumes "0 \<le> t" and "t < MAX_THREADS"
  shows "contains_loop_array v t c s
           = map_option (\<lambda>(c', s', es'). Inr (c', s')) (contains_loop v t c s es)"
proof (cases "contains_loop v t c s es")
  case None
  with contains_loop_of_array [OF _ assms, of v c s _ es] show ?thesis
    by (cases "contains_loop_array v t c s") auto
next
  case (Some r)
  from contains_loop_to_array [OF Some assms] Some show ?thesis
    by (simp add: case_prod_beta)
qed

lemma insert_traverse_array_eq:
  assumes "0 \<le> t" and "t < MAX_THREADS"
  shows "insert_traverse_array v t s
           = map_option (\<lambda>(p', c', s', es'). Inr (p', c', s')) (insert_traverse v t s)"
  using in_table_slots [OF assms]
  by (simp add: insert_traverse_array_def insert_traverse_def store_array_in
      traverse_loop_array_eq [OF assms, symmetric] split: option.splits)

lemma remove_traverse_array_eq:
  assumes "0 \<le> t" and "t < MAX_THREADS"
  shows "remove_traverse_array v t s
           = map_option (\<lambda>(p', c', s', es'). Inr (p', c', s')) (remove_traverse v t s)"
  using in_table_slots [OF assms]
  by (simp add: remove_traverse_array_def remove_traverse_def store_array_in
      traverse_loop_array_eq [OF assms, symmetric] split: option.splits)

lemma contains_traverse_array_eq:
  assumes "0 \<le> t" and "t < MAX_THREADS"
  shows "contains_traverse_array v t s
           = map_option (\<lambda>(c', s', es'). Inr (c', s')) (contains_traverse v t s)"
  using in_table_slots [OF assms]
  by (simp add: contains_traverse_array_def contains_traverse_def store_array_in
      contains_loop_array_eq [OF assms, symmetric] split: option.splits)

lemma insert_link_to_array:
  assumes "insert_link v t s = Some s'" and "0 \<le> t" and "t < MAX_THREADS"
  shows "insert_link_array v t s = Some (Inr s')"
  using assms
proof (induction rule: insert_link.raw_induct [rotated 1, consumes 1, case_names step])
  case (step insert_link v t s s')
  from step(2) show ?case
    apply (subst insert_link_array.simps)
    apply (auto simp: insert_traverse_array_eq [OF step(3,4)] reset_array_in [OF step(3,4)] Let_def
        split: option.splits if_splits intro: step(1) [OF _ step(3,4)])
    done
qed

lemma insert_link_of_array:
  assumes "insert_link_array v t s = Some y" and "0 \<le> t" and "t < MAX_THREADS"
  shows "\<exists>s'. y = Inr s' \<and> insert_link v t s = Some s'"
  using assms
proof (induction rule: insert_link_array.raw_induct [rotated 1, consumes 1, case_names step])
  case (step insert_link_array v t s y)
  from step(2) show ?case
    apply (subst insert_link.simps)
    apply (auto simp: insert_traverse_array_eq [OF step(3,4)] reset_array_in [OF step(3,4)] Let_def
        split: option.splits if_splits sum.splits intro: step(1) [OF _ step(3,4)])
    done
qed

lemma insert_link_array_eq:
  assumes "0 \<le> t" and "t < MAX_THREADS"
  shows "insert_link_array v t s = map_option Inr (insert_link v t s)"
proof (cases "insert_link v t s")
  case None
  with insert_link_of_array [OF _ assms, of v s] show ?thesis
    by (cases "insert_link_array v t s") auto
next
  case (Some r)
  from insert_link_to_array [OF Some assms] Some show ?thesis by simp
qed

lemma remove_unlink_to_array:
  assumes "remove_unlink v t s = Some r" and "0 \<le> t" and "t < MAX_THREADS"
  shows "remove_unlink_array v t s = Some (Inr r)"
  using assms
proof (induction rule: remove_unlink.raw_induct [rotated 1, consumes 1, case_names step])
  case (step remove_unlink v t s r)
  from step(2) show ?case
    apply (subst remove_unlink_array.simps)
    apply (auto simp: remove_traverse_array_eq [OF step(3,4)] reset_array_in [OF step(3,4)] Let_def
        split: option.splits if_splits intro: step(1) [OF _ step(3,4)])
    done
qed

lemma remove_unlink_of_array:
  assumes "remove_unlink_array v t s = Some y" and "0 \<le> t" and "t < MAX_THREADS"
  shows "\<exists>found s'. y = Inr (found, s') \<and> remove_unlink v t s = Some (found, s')"
  using assms
proof (induction rule: remove_unlink_array.raw_induct [rotated 1, consumes 1, case_names step])
  case (step remove_unlink_array v t s y)
  from step(2) show ?case
    apply (subst remove_unlink.simps)
    apply (auto simp: remove_traverse_array_eq [OF step(3,4)] reset_array_in [OF step(3,4)] Let_def
        split: option.splits if_splits sum.splits intro: step(1) [OF _ step(3,4)])
    done
qed

lemma remove_unlink_array_eq:
  assumes "0 \<le> t" and "t < MAX_THREADS"
  shows "remove_unlink_array v t s = map_option Inr (remove_unlink v t s)"
proof (cases "remove_unlink v t s")
  case None
  with remove_unlink_of_array [OF _ assms, of v s] show ?thesis
    by (cases "remove_unlink_array v t s") auto
next
  case (Some r)
  from remove_unlink_to_array [OF Some assms] Some show ?thesis by simp
qed

text \<open>For a worker id inside \<open>0 .. MAX_THREADS - 1\<close> every access is inside the array, and
  the operations on the array are the operations defined first.\<close>

lemma insert_array_in_range:
  assumes "0 \<le> t" and "t < MAX_THREADS"
  shows "insert_array v t s = map_option Inr (insert' v t s)"
  by (simp add: insert_array_def insert'_def insert_link_array_eq [OF assms]
      split: option.splits)

lemma remove_array_in_range:
  assumes "0 \<le> t" and "t < MAX_THREADS"
  shows "remove_array v t s = map_option Inr (remove' v t s)"
  by (auto simp: remove_array_def remove'_def remove_unlink_array_eq [OF assms]
      split: option.splits)

lemma contains_array_in_range:
  assumes "0 \<le> t" and "t < MAX_THREADS"
  shows "contains_array v t s = map_option Inr (contains v t s)"
  by (auto simp: contains_array_def contains_def contains_traverse_array_eq [OF assms]
      reset_array_in [OF assms] split: option.splits)

text \<open>For a worker id outside that range the first store of a call is outside the
  array.\<close>

lemma insert_array_out_of_range:
  assumes "\<not> (0 \<le> t \<and> t < MAX_THREADS)" and "heap s (head s) = Some h"
  shows "insert_array v t s = Some (Inl (OutOfBounds t 0))"
proof -
  have "insert_link_array v t s = Some (Inl (OutOfBounds t 0))"
    by (subst insert_link_array.simps)
      (simp add: insert_traverse_array_def assms(2) store_array_out [OF assms(1)])
  then show ?thesis by (simp add: insert_array_def)
qed

lemma remove_array_out_of_range:
  assumes "\<not> (0 \<le> t \<and> t < MAX_THREADS)" and "heap s (head s) = Some h"
  shows "remove_array v t s = Some (Inl (OutOfBounds t 0))"
proof -
  have "remove_unlink_array v t s = Some (Inl (OutOfBounds t 0))"
    by (subst remove_unlink_array.simps)
      (simp add: remove_traverse_array_def assms(2) store_array_out [OF assms(1)])
  then show ?thesis by (simp add: remove_array_def)
qed

lemma contains_array_out_of_range:
  assumes "\<not> (0 \<le> t \<and> t < MAX_THREADS)" and "heap s (head s) = Some h"
  shows "contains_array v t s = Some (Inl (OutOfBounds t 0))"
  by (simp add: contains_array_def contains_traverse_array_def assms(2)
      store_array_out [OF assms(1)])

lemma head_new:
  "heap MarkedList_new (head MarkedList_new)
     = Some \<lparr>val = sentinel_value, nxt = None, removed = False\<rparr>"
  by (simp add: MarkedList_new_def)

subsection \<open>The counter in long runs\<close>

lemma sint_succ_of_nat:
  assumes "Suc n < 2 ^ 31"
  shows "sint ((of_nat n :: 32 word) + 1) = int n + 1"
proof -
  have "(of_nat n :: 32 word) + 1 = of_nat (Suc n)" by simp
  then show ?thesis using sint_of_nat_32 [OF assms] by (simp add: add.commute)
qed

lemma insert_round:
  assumes "Suc n < 2 ^ 31"
  shows "insert' 5 0 (after_rounds n)
           = Some (MarkedList_new
                \<lparr>length' := 1, operationCounter := of_nat n,
                 heap := (heap MarkedList_new)
                    (Suc n := Some \<lparr>val = 5, nxt = None, removed = False\<rparr>,
                     0 := Some \<lparr>val = sentinel_value, nxt = Some (Suc n), removed = False\<rparr>),
                 brk := Suc (Suc n)\<rparr>)"
  using sint_succ_of_nat [OF assms]
  apply (simp add: insert'_def insert_link.simps insert_traverse_def traverse_loop.simps
      validate_def after_rounds_def MarkedList_new_def reset_eq storeAccessedPointer_def
      count_operation_def reclaim_due_def word_sle_eq scanAndReclaim_def Let_def)
  apply (simp add: fun_eq_iff)
  done

lemma remove_round:
  assumes "Suc n < 2 ^ 31"
  shows "remove' 5 0 (MarkedList_new
                \<lparr>length' := 1, operationCounter := of_nat n,
                 heap := (heap MarkedList_new)
                    (Suc n := Some \<lparr>val = 5, nxt = None, removed = False\<rparr>,
                     0 := Some \<lparr>val = sentinel_value, nxt = Some (Suc n), removed = False\<rparr>),
                 brk := Suc (Suc n)\<rparr>)
           = Some (True, after_rounds (Suc n))"
  using sint_succ_of_nat [OF assms]
  apply (simp add: remove'_def remove_unlink.simps remove_traverse_def traverse_loop.simps
      validate_def after_rounds_def MarkedList_new_def reset_eq storeAccessedPointer_def
      count_operation_def reclaim_due_def word_sle_eq scanAndReclaim_def Let_def
      isNodeAccessed_iff)
  apply (simp add: fun_eq_iff)
  done

lemma last_insert:
  assumes "sint ((of_nat n :: 32 word) + 1) < 1"
  shows "insert' 5 0 (after_rounds n)
           = Some (MarkedList_new
                \<lparr>length' := 1, operationCounter := of_nat n + 1,
                 heap := (heap MarkedList_new)
                    (Suc n := Some \<lparr>val = 5, nxt = None, removed = False\<rparr>,
                     0 := Some \<lparr>val = sentinel_value, nxt = Some (Suc n), removed = False\<rparr>),
                 brk := Suc (Suc n)\<rparr>)"
  using assms
  apply (simp add: insert'_def insert_link.simps insert_traverse_def traverse_loop.simps
      validate_def after_rounds_def MarkedList_new_def reset_eq storeAccessedPointer_def
      count_operation_def reclaim_due_def word_sle_eq scanAndReclaim_def Let_def)
  apply (simp add: fun_eq_iff)
  done

lemma run_append:
  "run (xs @ ys) s =
     (case run xs s of
        None \<Rightarrow> None
      | Some (rs, s1) \<Rightarrow>
          (case run ys s1 of None \<Rightarrow> None | Some (rs', s2) \<Rightarrow> Some (rs @ rs', s2)))"
  by (induction xs arbitrary: s) (auto split: option.splits)

lemma rounds_Suc: "rounds (Suc n) = [Insert 5 0, Remove 5 0] @ rounds n"
  by (simp add: rounds_def)

lemma length_rounds: "length (rounds n) = 2 * n"
  by (induction n) (simp_all add: rounds_def)

lemma run_rounds:
  "m + n < 2 ^ 31 \<Longrightarrow> map_option snd (run (rounds n) (after_rounds m)) = Some (after_rounds (m + n))"
proof (induction n arbitrary: m)
  case 0
  then show ?case by (simp add: rounds_def)
next
  case (Suc n)
  from Suc.prems have m: "Suc m < 2 ^ 31" and mn: "Suc m + n < 2 ^ 31" by simp_all
  have "run [Insert 5 0, Remove 5 0] (after_rounds m) = Some ([True, True], after_rounds (Suc m))"
    by (simp add: insert_round [OF m] remove_round [OF m])
  with Suc.IH [OF mn] show ?case
    by (auto simp: rounds_Suc run_append split: option.splits)
qed

lemma after_rounds_0: "after_rounds 0 = MarkedList_new"
  by (simp add: after_rounds_def MarkedList_new_def)

lemma sint_wrap: "sint ((of_nat (2 ^ 31 - 1) :: 32 word) + 1) = - (2 ^ 31)"
  by simp

lemma count_operation_since:
  assumes inv: "list_inv s as"
    and len: "length' s = of_nat (length as)" "length as \<le> Suc n"
    and opc: "0 \<le> sint (operationCounter s)" "sint (operationCounter s) \<le> int n"
    and n: "Suc n < 2 ^ 31"
    and haz: "accessedPointers s = (\<lambda>i j. None)"
    and ret: "int (length (retireList s)) \<le> sint (operationCounter s) + 1"
  shows "\<exists>s'. count_operation s = Some s' \<and> counters_inv (Suc n) s' as
           \<and> (\<not> reclaim_due s \<longrightarrow>
                 sint (operationCounter s') = sint (operationCounter s) + 1
                 \<and> sint (operationCounter s') < int (length as))"
proof -
  from count_operation_counters [OF inv len opc n haz ret] obtain s' where
    c: "count_operation s = Some s'" and ci: "counters_inv (Suc n) s' as"
    by blast
  have n': "int n < 2 ^ 31 - 1" using n by simp
  have o1: "sint (operationCounter s + 1) = sint (operationCounter s) + 1"
    using opc n' by (intro sint_succ_32) simp_all
  have "length as < 2 ^ 31" using len(2) n by simp
  then have sl: "sint (length' s) = int (length as)"
    unfolding len(1) by (rule sint_of_nat_32)
  have due: "reclaim_due s \<longleftrightarrow> int (length as) \<le> sint (operationCounter s) + 1"
    by (simp add: reclaim_due_def word_sle_eq o1 sl)
  have "sint (operationCounter s') = sint (operationCounter s) + 1
          \<and> sint (operationCounter s') < int (length as)" if nd: "\<not> reclaim_due s"
  proof -
    from c nd have "s' = s\<lparr>operationCounter := operationCounter s + 1\<rparr>"
      by (simp add: count_operation_def Let_def)
    with o1 nd due show ?thesis by simp
  qed
  with c ci show ?thesis by blast
qed

lemma exec_since:
  assumes ci: "counters_inv n s as" and n: "Suc n < 2 ^ 31"
    and k1: "int k \<le> sint (operationCounter s)" and k2: "k = 0 \<or> k < length as"
  shows "\<exists>r s' as' k'. exec c s = Some (r, s') \<and> counters_inv (Suc n) s' as'
           \<and> k' = (if reclaims c s then 0 else if counted c r then Suc k else k)
           \<and> int k' \<le> sint (operationCounter s') \<and> (k' = 0 \<or> k' < length as')"
proof -
  from ci have inv: "list_inv s as" and len: "length' s = of_nat (length as)" "length as \<le> n"
    and opc: "0 \<le> sint (operationCounter s)" "sint (operationCounter s) \<le> int n"
    and haz: "accessedPointers s = (\<lambda>i j. None)"
    and ret: "int (length (retireList s)) \<le> sint (operationCounter s)"
    by (simp_all add: counters_inv_def)
  have quiet: "counters_inv (Suc n) (resetAccessedPointer t s) as" for t
    using counters_inv_mono [OF ci, of "Suc n"] reset_no_hazards [OF haz, of t]
    by (simp add: counters_inv_def reset_eq)
  have counted_call: "\<exists>r s' as' k'. exec c s = Some (r, s') \<and> counters_inv (Suc n) s' as'
           \<and> k' = (if reclaims c s then 0 else if counted c r then Suc k else k)
           \<and> int k' \<le> sint (operationCounter s') \<and> (k' = 0 \<or> k' < length as')"
    if i1: "list_inv s1 as1" and l1: "length' s1 = of_nat (length as1)" "length as1 \<le> Suc n"
      and o1: "operationCounter s1 = operationCounter s"
      and hz: "accessedPointers s1 = (\<lambda>i j. None)"
      and r1: "int (length (retireList s1)) \<le> sint (operationCounter s1) + 1"
      and ex: "\<And>s'. count_operation s1 = Some s' \<Longrightarrow> exec c s = Some (True, s')"
      and rc: "reclaims c s = reclaim_due s1" and cn: "counted c True"
    for s1 as1
  proof -
    have o1': "0 \<le> sint (operationCounter s1)" "sint (operationCounter s1) \<le> int n"
      using opc o1 by simp_all
    from count_operation_since [OF i1 l1 o1' n hz r1] obtain s' where
      co: "count_operation s1 = Some s'" and c': "counters_inv (Suc n) s' as1"
      and nd: "\<not> reclaim_due s1 \<longrightarrow>
                 sint (operationCounter s') = sint (operationCounter s1) + 1
                 \<and> sint (operationCounter s') < int (length as1)"
      by blast
    from c' have p: "0 \<le> sint (operationCounter s')" by (simp add: counters_inv_def)
    define k' where "k' = (if reclaims c s then 0 else if counted c True then Suc k else k)"
    have b: "int k' \<le> sint (operationCounter s') \<and> (k' = 0 \<or> k' < length as1)"
    proof (cases "reclaim_due s1")
      case True
      then have "k' = 0" by (simp add: k'_def rc)
      with p show ?thesis by simp
    next
      case False
      then have "k' = Suc k" by (simp add: k'_def rc cn)
      moreover from False nd have "sint (operationCounter s') = sint (operationCounter s) + 1"
        and "sint (operationCounter s') < int (length as1)"
        using o1 by simp_all
      ultimately show ?thesis using k1 by simp
    qed
    show ?thesis
      by (rule exI [of _ True], rule exI [of _ s'], rule exI [of _ as1], rule exI [of _ k'])
        (simp only: ex [OF co] c' k'_def [symmetric] b simp_thms)
  qed
  show ?thesis
  proof (cases c)
    case (Insert v t)
    from insert_link_spec [OF inv, of v t] obtain s1 as1 where
      il: "insert_link v t s = Some s1" and i1: "list_inv s1 as1"
      and l1: "length as1 = Suc (length as)" "length' s1 = length' s + 1"
      and o1: "operationCounter s1 = operationCounter s"
      and r1: "retireList s1 = retireList s"
      and a1: "accessedPointers s1 = accessedPointers (resetAccessedPointer t s)"
      by blast
    have "length' s1 = of_nat (length as1)" using l1 len by simp
    moreover have "length as1 \<le> Suc n" using l1 len by simp
    moreover have "accessedPointers s1 = (\<lambda>i j. None)"
      using a1 reset_no_hazards [OF haz] by simp
    moreover have "int (length (retireList s1)) \<le> sint (operationCounter s1) + 1"
      using ret r1 o1 by simp
    moreover have "exec c s = Some (True, s')" if "count_operation s1 = Some s'" for s'
      using Insert il that by (simp add: insert'_def)
    moreover have "reclaims c s = reclaim_due s1" using Insert il by (simp add: reclaims_def)
    moreover have "counted c True" using Insert by simp
    ultimately show ?thesis using i1 o1 by (intro counted_call [of s1 as1])
  next
    case (Remove v t)
    from remove_unlink_spec [OF inv, of v t] obtain found s1 as1 where
      ru: "remove_unlink v t s = Some (found, s1)" and i1: "list_inv s1 as1"
      and o1: "operationCounter s1 = operationCounter s"
      and a1: "accessedPointers s1 = accessedPointers (resetAccessedPointer t s)"
      and f: "found \<longrightarrow> Suc (length as1) = length as \<and> length' s1 = length' s - 1
                 \<and> length (retireList s1) = Suc (length (retireList s))"
      and nf: "\<not> found \<longrightarrow> as1 = as \<and> length' s1 = length' s \<and> retireList s1 = retireList s"
      by blast
    have hz: "accessedPointers s1 = (\<lambda>i j. None)"
      using a1 reset_no_hazards [OF haz] by simp
    show ?thesis
    proof (cases found)
      case True
      with f have l1: "Suc (length as1) = length as" "length' s1 = length' s - 1"
        and r1: "length (retireList s1) = Suc (length (retireList s))"
        by simp_all
      have "0 < length as" using l1(1) by linarith
      from of_nat_pred_word [OF this] l1 len have "length' s1 = of_nat (length as1)"
        by (metis diff_Suc_1)
      moreover have "length as1 \<le> Suc n" using l1 len by simp
      moreover have "int (length (retireList s1)) \<le> sint (operationCounter s1) + 1"
        using ret r1 o1 by simp
      moreover have "exec c s = Some (True, s')" if "count_operation s1 = Some s'" for s'
        using Remove ru True that by (simp add: remove'_def)
      moreover have "reclaims c s = reclaim_due s1"
        using Remove ru True by (simp add: reclaims_def)
      moreover have "counted c True" using Remove by simp
      ultimately show ?thesis using i1 o1 hz by (intro counted_call [of s1 as1])
    next
      case False
      with nf have e: "as1 = as" "length' s1 = length' s" "retireList s1 = retireList s"
        by simp_all
      have c': "counters_inv (Suc n) s1 as"
        using counters_inv_mono [OF ci, of "Suc n"] i1 e o1 hz
        by (simp add: counters_inv_def)
      have ex: "exec c s = Some (False, s1)" using Remove ru False by (simp add: remove'_def)
      have rc: "\<not> reclaims c s" using Remove ru False by (simp add: reclaims_def)
      have kk: "k = (if reclaims c s then 0 else if counted c False then Suc k else k)"
        using rc Remove by simp
      have k1': "int k \<le> sint (operationCounter s1)" using k1 o1 by simp
      show ?thesis
        by (rule exI [of _ False], rule exI [of _ s1], rule exI [of _ as], rule exI [of _ k])
          (simp only: ex c' kk [symmetric] k1' k2 simp_thms)
    qed
  next
    case (Contains v t)
    from inv have "linked s as" by (simp add: list_inv_def)
    from contains_spec [OF this, of v t] obtain r where
      ex: "exec c s = Some (r, resetAccessedPointer t s)"
      using Contains by simp
    have kk: "k = (if reclaims c s then 0 else if counted c r then Suc k else k)"
      using Contains by (simp add: reclaims_def)
    have k1': "int k \<le> sint (operationCounter (resetAccessedPointer t s))"
      using k1 by simp
    show ?thesis
      by (rule exI [of _ r], rule exI [of _ "resetAccessedPointer t s"], rule exI [of _ as],
          rule exI [of _ k])
        (simp only: ex quiet [of t] kk [symmetric] k1' k2 simp_thms)
  qed
qed

lemma run_since:
  assumes "counters_inv n s as" and "n + length cs < 2 ^ 31"
    and "int k \<le> sint (operationCounter s)" and "k = 0 \<or> k < length as"
  shows "\<exists>rs s' as' k'. run cs s = Some (rs, s') \<and> counters_inv (n + length cs) s' as'
           \<and> since_pass cs s k = Some k' \<and> (k' = 0 \<or> k' < length as')"
  using assms
proof (induction cs arbitrary: n s as k)
  case Nil
  then show ?case by auto
next
  case (Cons c cs)
  from Cons.prems(2) have n: "Suc n < 2 ^ 31" and m: "Suc n + length cs < 2 ^ 31" by simp_all
  from exec_since [OF Cons.prems(1) n Cons.prems(3,4), of c] obtain r s1 as1 k1 where
    e: "exec c s = Some (r, s1)" and c1: "counters_inv (Suc n) s1 as1"
    and k1: "k1 = (if reclaims c s then 0 else if counted c r then Suc k else k)"
    and b: "int k1 \<le> sint (operationCounter s1)" "k1 = 0 \<or> k1 < length as1"
    by blast
  from Cons.IH [OF c1 m b] obtain rs s' as' k' where
    "run cs s1 = Some (rs, s')" "counters_inv (Suc n + length cs) s' as'"
    "since_pass cs s1 k1 = Some k'" "k' = 0 \<or> k' < length as'"
    by blast
  with e k1 show ?case by auto
qed

subsection \<open>Claims about worker ids and about the reclaim trigger\<close>

text \<open>
  Claim C9 says that a call with a worker id outside \<open>0 .. MAX_THREADS - 1\<close> is stopped by
  a panic before it touches the hazard table. The code has no such check: the first thing
  \<open>insert\<close>, \<open>remove\<close> and \<open>contains\<close> do with the id is to index the array with it. On a
  fresh list \<open>insert(5, 8)\<close> and \<open>remove(5, 8)\<close> get as far as the store at
  \<^verbatim>\<open>accessedPointers[8][0]\<close> and \<open>contains(5, -1)\<close> as far as the store at
  \<^verbatim>\<open>accessedPointers[-1][0]\<close>, both outside the array.
\<close>

theorem worker_id_unchecked_counterexample:
  "\<not> (0 \<le> (8 :: int) \<and> (8 :: int) < MAX_THREADS)
   \<and> \<not> (0 \<le> (- 1 :: int) \<and> (- 1 :: int) < MAX_THREADS)
   \<and> storeAccessedPointer_array 8 None 0 MarkedList_new = Inl (OutOfBounds 8 0)
   \<and> insert_array 5 8 MarkedList_new = Some (Inl (OutOfBounds 8 0))
   \<and> remove_array 5 8 MarkedList_new = Some (Inl (OutOfBounds 8 0))
   \<and> contains_array 5 (- 1) MarkedList_new = Some (Inl (OutOfBounds (- 1) 0))"
proof -
  have o8: "\<not> (0 \<le> (8 :: int) \<and> (8 :: int) < MAX_THREADS)"
    by (simp add: MAX_THREADS_def)
  have o1: "\<not> (0 \<le> (- 1 :: int) \<and> (- 1 :: int) < MAX_THREADS)"
    by simp
  from o8 o1 store_array_out [OF o8, of None 0 MarkedList_new]
    insert_array_out_of_range [OF o8 head_new, of 5]
    remove_array_out_of_range [OF o8 head_new, of 5]
    contains_array_out_of_range [OF o1 head_new, of 5]
  show ?thesis by simp
qed

text \<open>
  Claim C9, amended. \<open>insert\<close>, \<open>remove\<close> and \<open>contains\<close> make no check of the worker id and
  have no error of their own to raise. In every state whose sentinel is allocated, a call
  with a worker id \<open>t\<close> outside \<open>0 .. MAX_THREADS - 1\<close> runs into the store of
  \<^verbatim>\<open>head->next\<close> at \<^verbatim>\<open>accessedPointers[t][0]\<close>, its first access to the table, which is
  outside the array: the call has no defined behaviour from there. With a worker id
  inside the range no access of the call is outside the array, and the call is the one
  the first part of this theory describes.
\<close>

theorem worker_id_out_of_range:
  assumes "heap s (head s) = Some h"
  shows "(\<not> (0 \<le> t \<and> t < MAX_THREADS) \<longrightarrow>
            storeAccessedPointer_array t (nxt h) 0 s = Inl (OutOfBounds t 0)
            \<and> insert_array v t s = Some (Inl (OutOfBounds t 0))
            \<and> remove_array v t s = Some (Inl (OutOfBounds t 0))
            \<and> contains_array v t s = Some (Inl (OutOfBounds t 0)))
       \<and> (0 \<le> t \<and> t < MAX_THREADS \<longrightarrow>
            insert_array v t s = map_option Inr (insert' v t s)
            \<and> remove_array v t s = map_option Inr (remove' v t s)
            \<and> contains_array v t s = map_option Inr (contains v t s))"
proof (intro conjI impI)
  assume out: "\<not> (0 \<le> t \<and> t < MAX_THREADS)"
  show "storeAccessedPointer_array t (nxt h) 0 s = Inl (OutOfBounds t 0)"
    by (rule store_array_out [OF out])
  show "insert_array v t s = Some (Inl (OutOfBounds t 0))"
    by (rule insert_array_out_of_range [OF out assms])
  show "remove_array v t s = Some (Inl (OutOfBounds t 0))"
    by (rule remove_array_out_of_range [OF out assms])
  show "contains_array v t s = Some (Inl (OutOfBounds t 0))"
    by (rule contains_array_out_of_range [OF out assms])
next
  assume "0 \<le> t \<and> t < MAX_THREADS"
  then have t: "0 \<le> t" "t < MAX_THREADS" by simp_all
  show "insert_array v t s = map_option Inr (insert' v t s)"
    by (rule insert_array_in_range [OF t])
  show "remove_array v t s = map_option Inr (remove' v t s)"
    by (rule remove_array_in_range [OF t])
  show "contains_array v t s = map_option Inr (contains v t s)"
    by (rule contains_array_in_range [OF t])
qed

theorem worker_id_out_of_range_witness:
  "heap S3_state (head S3_state) = Some \<lparr>val = sentinel_value, nxt = Some 1, removed = False\<rparr>
   \<and> \<not> (0 \<le> (1000000 :: int) \<and> (1000000 :: int) < MAX_THREADS)
   \<and> storeAccessedPointer_array 1000000 (Some 1) 0 S3_state = Inl (OutOfBounds 1000000 0)
   \<and> insert_array 9 1000000 S3_state = Some (Inl (OutOfBounds 1000000 0))
   \<and> remove_array 9 1000000 S3_state = Some (Inl (OutOfBounds 1000000 0))
   \<and> contains_array 9 1000000 S3_state = Some (Inl (OutOfBounds 1000000 0))
   \<and> 0 \<le> (3 :: int) \<and> (3 :: int) < MAX_THREADS
   \<and> contains_array 7 3 S3_state = map_option Inr (contains 7 3 S3_state)
   \<and> map_option (map_sum id fst) (contains_array 7 3 S3_state) = Some (Inr False)"
proof -
  have h: "heap S3_state (head S3_state)
             = Some \<lparr>val = sentinel_value, nxt = Some 1, removed = False\<rparr>"
    by (simp add: S3_state_def MarkedList_new_def)
  have o: "\<not> (0 \<le> (1000000 :: int) \<and> (1000000 :: int) < MAX_THREADS)"
    by (simp add: MAX_THREADS_def)
  have i: "0 \<le> (3 :: int) \<and> (3 :: int) < MAX_THREADS"
    by (simp add: MAX_THREADS_def)
  have c: "map_option (map_sum id fst) (contains_array 7 3 S3_state) = Some (Inr False)"
    by code_simp
  from worker_id_out_of_range [OF h, of 1000000 9, THEN conjunct1, rule_format, OF o]
  have a: "storeAccessedPointer_array 1000000 (Some 1) 0 S3_state = Inl (OutOfBounds 1000000 0)
        \<and> insert_array 9 1000000 S3_state = Some (Inl (OutOfBounds 1000000 0))
        \<and> remove_array 9 1000000 S3_state = Some (Inl (OutOfBounds 1000000 0))
        \<and> contains_array 9 1000000 S3_state = Some (Inl (OutOfBounds 1000000 0))"
    by simp
  from worker_id_out_of_range [OF h, of 3 7, THEN conjunct2, rule_format, OF i]
  have b: "contains_array 7 3 S3_state = map_option Inr (contains 7 3 S3_state)"
    by (rule conjunct2 [THEN conjunct2])
  from h o i c a b show ?thesis by blast
qed

text \<open>
  Claim C10 says that in every sequential execution \<open>operationCounter\<close> is non-negative
  after each completed \<open>insert\<close> or \<open>remove\<close>. The counter is a 32-bit \<^verbatim>\<open>int\<close>, and a
  round \<open>insert(5, 0); remove(5, 0)\<close> on the empty list leaves it one higher: both calls
  run a reclaim pass, and what is subtracted is the length, 1 and then 0. After
  \<open>2 ^ 31 - 1\<close> rounds on a fresh list the counter is the largest \<^verbatim>\<open>int\<close>; the \<open>insert\<close>
  that follows, call number \<open>2 ^ 32 - 1\<close>, leaves it at \<open>- 2 ^ 31\<close>.
\<close>

theorem operationCounter_wraps_counterexample:
  "length (rounds (2 ^ 31 - 1) @ [Insert 5 0]) = 2 ^ 32 - 1
   \<and> map_option (\<lambda>(rs, s). sint (operationCounter s))
        (run (rounds (2 ^ 31 - 1)) MarkedList_new) = Some (2 ^ 31 - 1)
   \<and> map_option (\<lambda>(rs, s). sint (operationCounter s))
        (run (rounds (2 ^ 31 - 1) @ [Insert 5 0]) MarkedList_new) = Some (- (2 ^ 31))"
proof -
  define n :: nat where "n = 2 ^ 31 - 1"
  have n: "0 + n < 2 ^ 31" by (simp add: n_def)
  from run_rounds [OF n] obtain rs where
    r: "run (rounds n) MarkedList_new = Some (rs, after_rounds n)"
    by (auto simp: after_rounds_0)
  have w: "sint ((of_nat n :: 32 word) + 1) = - (2 ^ 31)"
    unfolding n_def by (rule sint_wrap)
  then have "sint ((of_nat n :: 32 word) + 1) < 1" by simp
  note li = last_insert [OF this]
  have m: "sint (of_nat n :: 32 word) = 2 ^ 31 - 1"
    using sint_of_nat_32 [of n] by (simp add: n_def)
  have "length (rounds n @ [Insert 5 0]) = 2 ^ 32 - 1"
    by (simp add: length_rounds n_def)
  moreover have "map_option (\<lambda>(rs, s). sint (operationCounter s))
        (run (rounds n) MarkedList_new) = Some (2 ^ 31 - 1)"
    using m by (simp add: r after_rounds_def)
  moreover have "map_option (\<lambda>(rs, s). sint (operationCounter s))
        (run (rounds n @ [Insert 5 0]) MarkedList_new) = Some (- (2 ^ 31))"
    using w by (simp add: run_append r li)
  ultimately show ?thesis unfolding n_def by blast
qed

text \<open>
  Claim C10, amended. In every execution of fewer than \<open>2 ^ 31\<close> calls, run one after the
  other on a fresh list, after each call \<open>operationCounter\<close> is non-negative; the number
  of counted calls since the last reclaim pass is 0 or below \<open>length\<close>, so the trigger
  fires at least once per \<open>length\<close> counted calls; the retire list holds at most
  \<open>operationCounter\<close> nodes, and while it is not empty \<open>operationCounter\<close> is below
  \<open>length\<close>, so it cannot grow without a reclaim pass running. And in any state with
  non-negative counters and \<open>operationCounter\<close> below the largest \<^verbatim>\<open>int\<close>, the counting
  at the end of \<open>insert\<close> and \<open>remove\<close> leaves \<open>operationCounter\<close> non-negative, whether
  the trigger fires (the subtraction of \<open>length\<close> is then from a value at least as
  large) or not.
\<close>

theorem operationCounter_nonnegative:
  "(\<forall>cs. length cs < 2 ^ 31 \<longrightarrow>
      (\<exists>rs s as k. run cs MarkedList_new = Some (rs, s) \<and> linked s as
         \<and> 0 \<le> sint (operationCounter s)
         \<and> since_pass cs MarkedList_new 0 = Some k
         \<and> (k = 0 \<or> int k < sint (get_length s))
         \<and> int (length (retireList s)) \<le> sint (operationCounter s)
         \<and> (retireList s \<noteq> [] \<longrightarrow> sint (operationCounter s) < sint (get_length s))))
   \<and> (\<forall>s s'. 0 \<le> sint (operationCounter s) \<and> sint (operationCounter s) < 2 ^ 31 - 1
         \<and> 0 \<le> sint (length' s) \<and> count_operation s = Some s'
         \<longrightarrow> 0 \<le> sint (operationCounter s'))"
proof (intro conjI allI impI)
  fix cs :: "call list"
  assume n: "length cs < 2 ^ 31"
  then have "0 + length cs < 2 ^ 31" by simp
  from run_since [OF counters_inv_new this, of 0] obtain rs s as k where
    r: "run cs MarkedList_new = Some (rs, s)" and c: "counters_inv (length cs) s as"
    and sp: "since_pass cs MarkedList_new 0 = Some k" and k: "k = 0 \<or> k < length as"
    by (auto simp: MarkedList_new_def)
  from c have "length as < 2 ^ 31" using n by (simp add: counters_inv_def)
  then have "sint (of_nat (length as) :: 32 word) = int (length as)" by (rule sint_of_nat_32)
  with c have g: "sint (get_length s) = int (length as)"
    by (simp add: counters_inv_def get_length_def)
  from c g k have "linked s as \<and> 0 \<le> sint (operationCounter s)
         \<and> (k = 0 \<or> int k < sint (get_length s))
         \<and> int (length (retireList s)) \<le> sint (operationCounter s)
         \<and> (retireList s \<noteq> [] \<longrightarrow> sint (operationCounter s) < sint (get_length s))"
    by (auto simp: counters_inv_def list_inv_def)
  with r sp show "\<exists>rs s as k. run cs MarkedList_new = Some (rs, s) \<and> linked s as
         \<and> 0 \<le> sint (operationCounter s)
         \<and> since_pass cs MarkedList_new 0 = Some k
         \<and> (k = 0 \<or> int k < sint (get_length s))
         \<and> int (length (retireList s)) \<le> sint (operationCounter s)
         \<and> (retireList s \<noteq> [] \<longrightarrow> sint (operationCounter s) < sint (get_length s))"
    by blast
next
  fix s s'
  assume "0 \<le> sint (operationCounter s) \<and> sint (operationCounter s) < 2 ^ 31 - 1
         \<and> 0 \<le> sint (length' s) \<and> count_operation s = Some s'"
  then show "0 \<le> sint (operationCounter s')"
    using count_operation_nonneg [of s s'] by blast
qed

theorem operationCounter_nonnegative_witness:
  "length (S1 @ [Remove 5 0, Remove 5 0]) < 2 ^ 31
   \<and> (\<exists>rs s. run (S1 @ [Remove 5 0, Remove 5 0]) MarkedList_new = Some (rs, s)
        \<and> retireList s = [1] \<and> sint (operationCounter s) = 2 \<and> sint (get_length s) = 4
        \<and> since_pass (S1 @ [Remove 5 0, Remove 5 0]) MarkedList_new 0 = Some 1
        \<and> 0 \<le> sint (operationCounter s)
        \<and> int (length (retireList s)) \<le> sint (operationCounter s)
        \<and> sint (operationCounter s) < sint (get_length s))
   \<and> 0 \<le> sint (operationCounter (MarkedList_new\<lparr>length' := 1\<rparr>))
   \<and> sint (operationCounter (MarkedList_new\<lparr>length' := 1\<rparr>)) < 2 ^ 31 - 1
   \<and> 0 \<le> sint (length' (MarkedList_new\<lparr>length' := 1\<rparr>))
   \<and> (\<exists>s'. count_operation (MarkedList_new\<lparr>length' := 1\<rparr>) = Some s'
        \<and> 0 \<le> sint (operationCounter s'))"
proof -
  let ?cs = "S1 @ [Remove 5 0, Remove 5 0]"
  let ?q = "MarkedList_new\<lparr>length' := 1\<rparr>"
  have n: "length ?cs < 2 ^ 31" by (simp add: S1_def)
  from operationCounter_nonnegative [THEN conjunct1, rule_format, OF n] obtain rs s as k where
    r: "run ?cs MarkedList_new = Some (rs, s)"
    and sp: "since_pass ?cs MarkedList_new 0 = Some k"
    and p: "0 \<le> sint (operationCounter s)"
      "int (length (retireList s)) \<le> sint (operationCounter s)"
      "retireList s \<noteq> [] \<longrightarrow> sint (operationCounter s) < sint (get_length s)"
    by blast
  have "map_option (\<lambda>x. (retireList (snd x), sint (operationCounter (snd x)),
                           sint (get_length (snd x)))) (run ?cs MarkedList_new)
          = Some ([1], 2, 4)"
    unfolding S1_def by code_simp
  with r have e: "retireList s = [1]" "sint (operationCounter s) = 2" "sint (get_length s) = 4"
    by simp_all
  have k: "since_pass ?cs MarkedList_new 0 = Some 1"
    unfolding S1_def by code_simp
  have q: "0 \<le> sint (operationCounter ?q)" "sint (operationCounter ?q) < 2 ^ 31 - 1"
    "0 \<le> sint (length' ?q)"
    by (simp_all add: MarkedList_new_def)
  have "\<exists>s'. count_operation ?q = Some s'"
    by (simp add: count_operation_def scanAndReclaim_def MarkedList_new_def Let_def)
  then obtain s' where s': "count_operation ?q = Some s'" by blast
  from operationCounter_nonnegative [THEN conjunct2, rule_format, of ?q s'] q s'
  have "0 \<le> sint (operationCounter s')" by blast
  with n r p e q s' k show ?thesis by auto
qed

subsection \<open>Publication when another worker's call runs in between\<close>

lemma insert_traverse_not_preempted:
  "insert_traverse_preempted [] [] v t s = insert_traverse v t s"
  by (simp add: insert_traverse_preempted_def insert_traverse_def split: option.splits)

text \<open>In a list of events in which a node is read before it is stored in a slot,
  \<open>publishes_first\<close> fails.\<close>

lemma read_before_publish:
  assumes "a \<noteq> sen" and "\<forall>i. Publish t i (Some a) \<notin> set pre"
  shows "\<not> publishes_first t S sen (pre @ ReadValue a # post)"
proof
  assume "publishes_first t S sen (pre @ ReadValue a # post)"
  then have "\<exists>i \<in> S. Publish t i (Some a) \<in> set pre"
    unfolding publishes_first_def using assms(1) by blast
  with assms(2) show False by blast
qed

lemma preempted_walk_not_published:
  "\<not> publishes_first 0 {0, 1} 0
       [ReadNext 0, Publish 0 0 (Some 1), ReadNext 0,
        ReadValue 2, Publish 0 0 (Some 2), ReadNext 2, Publish 0 1 (Some 1), ReadNext 2,
        ReadValue 1, Publish 0 0 (Some 1), ReadNext 1, Publish 0 1 None, ReadNext 1]"
  using read_before_publish [of 2 0 0 "[ReadNext 0, Publish 0 0 (Some 1), ReadNext 0]" "{0, 1}"
      "[Publish 0 0 (Some 2), ReadNext 2, Publish 0 1 (Some 1), ReadNext 2,
        ReadValue 1, Publish 0 0 (Some 1), ReadNext 1, Publish 0 1 None, ReadNext 1]"]
  by simp

text \<open>
  Claim C8 says that in the unlocked traversal of \<open>insert\<close>, \<open>remove\<close> and \<open>contains\<close> every
  node other than the sentinel is stored in a hazard slot of the calling worker before it
  is dereferenced. \<open>contains\<close> loads a link once and stores what it loaded. \<open>insert\<close> and
  \<open>remove\<close> read the link twice, once for the slot (line 70) and once for \<open>curr\<close>
  (line 71), so a call of another worker between the two reads makes them differ.
  On the list holding the key 7 (node 1), worker 0 calls \<open>insert(9, 0)\<close> and stores node 1
  in its slot 0; worker 1 runs \<open>insert(3, 1)\<close>, which links node 2 after the sentinel;
  worker 0 loads \<open>curr\<close>, now node 2, and reads \<open>curr->value\<close> at line 74: the events
  of its walk have \<open>ReadValue 2\<close> before the first store of node 2. When worker 1
  also runs \<open>remove(3, 1)\<close> before line 74, its reclaim pass finds node 2 in no slot
  (slot 0 of worker 0 holds node 1) and frees it, and the read of line 74 is a read of freed
  memory: the walk has no defined result.
\<close>

theorem insert_dereferences_unpublished_node:
  "map_option (\<lambda>(pred, cur, s1, es). es)
     (case after [Insert 7 0] of
        None \<Rightarrow> None
      | Some s \<Rightarrow> insert_traverse_preempted [Insert 3 1] [] 9 0 s)
   = Some [ReadNext 0, Publish 0 0 (Some 1), ReadNext 0,
           ReadValue 2, Publish 0 0 (Some 2), ReadNext 2, Publish 0 1 (Some 1), ReadNext 2,
           ReadValue 1, Publish 0 0 (Some 1), ReadNext 1, Publish 0 1 None, ReadNext 1]
   \<and> map_option (\<lambda>(rs, s). (heap s 2, accessedPointers s 0 0, accessedPointers s 0 1))
       (case after [Insert 7 0] of
          None \<Rightarrow> None
        | Some s \<Rightarrow> run [Insert 3 1, Remove 3 1] (storeAccessedPointer 0 (Some 1) 0 s))
     = Some (None, Some 1, None)
   \<and> (case after [Insert 7 0] of
        None \<Rightarrow> None
      | Some s \<Rightarrow> insert_traverse_preempted [Insert 3 1] [Remove 3 1] 9 0 s) = None"
proof (intro conjI)
  show "map_option (\<lambda>(pred, cur, s1, es). es)
     (case after [Insert 7 0] of
        None \<Rightarrow> None
      | Some s \<Rightarrow> insert_traverse_preempted [Insert 3 1] [] 9 0 s)
   = Some [ReadNext 0, Publish 0 0 (Some 1), ReadNext 0,
           ReadValue 2, Publish 0 0 (Some 2), ReadNext 2, Publish 0 1 (Some 1), ReadNext 2,
           ReadValue 1, Publish 0 0 (Some 1), ReadNext 1, Publish 0 1 None, ReadNext 1]"
    unfolding after_def by code_simp
  show "map_option (\<lambda>(rs, s). (heap s 2, accessedPointers s 0 0, accessedPointers s 0 1))
       (case after [Insert 7 0] of
          None \<Rightarrow> None
        | Some s \<Rightarrow> run [Insert 3 1, Remove 3 1] (storeAccessedPointer 0 (Some 1) 0 s))
     = Some (None, Some 1, None)"
    unfolding after_def by code_simp
  show "(case after [Insert 7 0] of
        None \<Rightarrow> None
      | Some s \<Rightarrow> insert_traverse_preempted [Insert 3 1] [Remove 3 1] 9 0 s) = None"
    unfolding after_def by code_simp
qed

end
